theory Spec2Isabelle
  imports Main "HOL-Library.Word"
begin

section \<open>Data model of the Wi-Fi connector (src/CANIVETE/src/main.cpp)\<close>

text \<open>
  The firmware keeps all of its state in global variables. The embedding collects them
  in one record that every function takes and returns. Calls into the display are left
  out: they write no global. Calls into the Wi-Fi driver are recorded, in order, in the
  field \<open>wifi_calls\<close>; what the driver reports (scan results, connection status) and
  what the keyboard reports are inputs of the functions that read them.
\<close>

type_synonym u8 = "8 word"

definition MAX_NETWORKS :: nat where
  "MAX_NETWORKS = 10"

text \<open>\<open>WIFI_AUTH_OPEN\<close> is the first enumerator of the driver's \<open>wifi_auth_mode_t\<close>.\<close>

definition WIFI_AUTH_OPEN :: u8 where
  "WIFI_AUTH_OPEN = 0"

text \<open>
  \<open>struct NetworkInfo\<close>. The signal strength is an \<open>int32_t\<close> that the program only
  stores and compares, so it is an \<open>int\<close> here.
\<close>

record NetworkInfo =
  ssid :: string
  rssi :: int
  encType :: u8

datatype UiState =
    UI_NO_NETWORKS
  | UI_SELECT_NETWORK
  | UI_ENTER_PASSWORD
  | UI_CONNECTING
  | UI_CONNECTED
  | UI_CONNECT_FAILED

text \<open>The driver's \<open>wl_status_t\<close>, as the Arduino Wi-Fi interface declares it.\<close>

datatype wl_status_t =
    WL_NO_SHIELD
  | WL_IDLE_STATUS
  | WL_NO_SSID_AVAIL
  | WL_SCAN_COMPLETED
  | WL_CONNECTED
  | WL_CONNECT_FAILED
  | WL_CONNECTION_LOST
  | WL_DISCONNECTED

text \<open>The calls the program makes into the Wi-Fi driver.\<close>

datatype wifi_call =
    WiFi_mode_STA
  | WiFi_disconnect1 bool
  | WiFi_disconnect2 bool bool
  | WiFi_scanNetworks
  | WiFi_begin string "string option"

text \<open>
  The globals. \<open>g_networks\<close> is the array of \<open>MAX_NETWORKS\<close> entries, a list of that
  length; \<open>g_networkCount\<close> only counts upwards from 0, so it is a \<open>nat\<close>;
  \<open>g_selectedIndex\<close> goes below 0 for a moment when the selection wraps, so it is
  an \<open>int\<close>.
\<close>

record sys_state =
  g_networks :: "NetworkInfo list"
  g_networkCount :: nat
  g_selectedIndex :: int
  g_selectedSsid :: string
  g_selectedIsOpen :: bool
  g_password :: string
  g_needRedraw :: bool
  g_uiState :: UiState
  wifi_calls :: "wifi_call list"

text \<open>The values the globals have before \<open>setup\<close> runs.\<close>

definition initial_state :: sys_state where
  "initial_state =
     \<lparr>g_networks = replicate MAX_NETWORKS \<lparr>ssid = [], rssi = 0, encType = 0\<rparr>,
      g_networkCount = 0,
      g_selectedIndex = 0,
      g_selectedSsid = [],
      g_selectedIsOpen = False,
      g_password = [],
      g_needRedraw = True,
      g_uiState = UI_NO_NETWORKS,
      wifi_calls = []\<rparr>"

text \<open>The entries the program treats as valid: the first \<open>g_networkCount\<close> of the array.\<close>

definition held :: "sys_state \<Rightarrow> NetworkInfo list" where
  "held s = take (g_networkCount s) (g_networks s)"

text \<open>The array has its declared size and the count does not exceed it.\<close>

definition wf_state :: "sys_state \<Rightarrow> bool" where
  "wf_state s \<longleftrightarrow> length (g_networks s) = MAX_NETWORKS \<and> g_networkCount s \<le> MAX_NETWORKS"

section \<open>insertNetworkSorted\<close>

text \<open>
  The first loop: \<open>for (i = 0; i < g_networkCount; ++i) if (rssi > g_networks[i].rssi)
  { pos = i; break; }\<close>, from index \<open>i\<close> on.
\<close>

function find_pos :: "NetworkInfo list \<Rightarrow> nat \<Rightarrow> int \<Rightarrow> nat \<Rightarrow> nat \<Rightarrow> nat" where
  "find_pos nets cnt r pos i =
     (if i < cnt then
        (if r > rssi (nets ! i) then i else find_pos nets cnt r pos (Suc i))
      else pos)"
  by pat_completeness auto
termination
  by (relation "measure (\<lambda>(nets, cnt, r, pos, i). cnt - i)") auto

declare find_pos.simps [simp del]

text \<open>
  The second loop: \<open>for (i = limit; i > pos; --i) g_networks[i] = g_networks[i - 1];\<close>,
  from index \<open>i\<close> down.
\<close>

function shift_down :: "NetworkInfo list \<Rightarrow> nat \<Rightarrow> nat \<Rightarrow> NetworkInfo list" where
  "shift_down nets pos i =
     (if i > pos then shift_down (nets[i := nets ! (i - 1)]) pos (i - 1) else nets)"
  by pat_completeness auto
termination
  by (relation "measure (\<lambda>(nets, pos, i). i)") auto

declare shift_down.simps [simp del]

definition insertNetworkSorted :: "string \<Rightarrow> int \<Rightarrow> u8 \<Rightarrow> sys_state \<Rightarrow> sys_state" where
  "insertNetworkSorted ss r e s =
     (if g_networkCount s = MAX_NETWORKS
         \<and> r \<le> rssi (g_networks s ! (g_networkCount s - 1))
      then s
      else
        let pos0 = (if g_networkCount s > MAX_NETWORKS then MAX_NETWORKS
                    else g_networkCount s);
            pos = find_pos (g_networks s) (g_networkCount s) r pos0 0;
            limit = (if g_networkCount s < MAX_NETWORKS then g_networkCount s
                     else MAX_NETWORKS - 1);
            nets1 = shift_down (g_networks s) pos limit;
            nets2 = nets1[pos := (nets1 ! pos)\<lparr>ssid := ss, rssi := r, encType := e\<rparr>]
        in s\<lparr>g_networks := nets2,
             g_networkCount :=
               (if g_networkCount s < MAX_NETWORKS then g_networkCount s + 1
                else g_networkCount s)\<rparr>)"

section \<open>scanNetworks\<close>

text \<open>
  What one scan reports: the return value of \<open>WiFi.scanNetworks()\<close> and the three
  accessors \<open>WiFi.SSID(i)\<close>, \<open>WiFi.RSSI(i)\<close> and \<open>WiFi.encryptionType(i)\<close>.
\<close>

record scan_result =
  scan_n :: int
  scan_SSID :: "nat \<Rightarrow> string"
  scan_RSSI :: "nat \<Rightarrow> int"
  scan_encryptionType :: "nat \<Rightarrow> u8"

text \<open>The body of the loop over the scan's entries, for entry \<open>i\<close>.\<close>

definition scan_entry :: "scan_result \<Rightarrow> nat \<Rightarrow> sys_state \<Rightarrow> sys_state" where
  "scan_entry sc i s =
     (let ssid = scan_SSID sc i; rssi = scan_RSSI sc i; enc = scan_encryptionType sc i
      in if length ssid = 0 then s else insertNetworkSorted ssid rssi enc s)"

definition scanNetworks :: "scan_result \<Rightarrow> sys_state \<Rightarrow> sys_state" where
  "scanNetworks sc s =
     (let s1 = s\<lparr>g_networkCount := 0, g_selectedIndex := 0\<rparr>;
          s2 = s1\<lparr>wifi_calls :=
                 wifi_calls s1 @ [WiFi_mode_STA, WiFi_disconnect1 True, WiFi_scanNetworks]\<rparr>;
          n = scan_n sc;
          s3 = (if n \<le> 0 then s2\<lparr>g_uiState := UI_NO_NETWORKS\<rparr>
                else
                  let s4 = fold (scan_entry sc) [0 ..< nat n] s2
                  in if g_networkCount s4 = 0 then s4\<lparr>g_uiState := UI_NO_NETWORKS\<rparr>
                     else s4\<lparr>g_selectedIndex := 0, g_uiState := UI_SELECT_NETWORK\<rparr>)
      in s3\<lparr>g_needRedraw := True\<rparr>)"

section \<open>startConnection\<close>

definition startConnection :: "sys_state \<Rightarrow> sys_state" where
  "startConnection s =
     (let s1 = s\<lparr>g_uiState := UI_CONNECTING, g_needRedraw := True\<rparr>;
          s2 = s1\<lparr>wifi_calls := wifi_calls s1 @ [WiFi_mode_STA, WiFi_disconnect2 False False]\<rparr>
      in if g_selectedIsOpen s2
         then s2\<lparr>wifi_calls := wifi_calls s2 @ [WiFi_begin (g_selectedSsid s2) None]\<rparr>
         else s2\<lparr>wifi_calls :=
                  wifi_calls s2 @ [WiFi_begin (g_selectedSsid s2) (Some (g_password s2))]\<rparr>)"

section \<open>handleKeyboard\<close>

text \<open>
  The fields of \<open>Keyboard_Class::KeysState\<close> that the program reads, and the two
  flags it asks the keyboard for first.
\<close>

record KeysState =
  word :: string
  enter :: bool
  del :: bool

record keyboard =
  isChange :: bool
  isPressed :: bool
  keysState :: KeysState

text \<open>The body of the navigation loop of state \<open>UI_SELECT_NETWORK\<close>, for one character.\<close>

definition nav_char :: "char \<Rightarrow> sys_state \<Rightarrow> sys_state" where
  "nav_char ch s =
     (if ch = CHR ''w'' \<or> ch = CHR ''W'' then
        (if g_networkCount s > 0 then
           let s1 = s\<lparr>g_selectedIndex := g_selectedIndex s - 1\<rparr>;
               s2 = (if g_selectedIndex s1 < 0
                     then s1\<lparr>g_selectedIndex := int (g_networkCount s1) - 1\<rparr> else s1)
           in s2\<lparr>g_needRedraw := True\<rparr>
         else s)
      else if ch = CHR ''s'' \<or> ch = CHR ''S'' then
        (if g_networkCount s > 0 then
           let s1 = s\<lparr>g_selectedIndex := g_selectedIndex s + 1\<rparr>;
               s2 = (if g_selectedIndex s1 \<ge> int (g_networkCount s1)
                     then s1\<lparr>g_selectedIndex := 0\<rparr> else s1)
           in s2\<lparr>g_needRedraw := True\<rparr>
         else s)
      else s)"

text \<open>The body of the typing loop of state \<open>UI_ENTER_PASSWORD\<close>, for one character.\<close>

definition type_char :: "char \<Rightarrow> sys_state \<Rightarrow> sys_state" where
  "type_char ch s =
     (if ch = CHR ''q'' \<or> ch = CHR ''Q'' then s
      else s\<lparr>g_password := g_password s @ [ch], g_needRedraw := True\<rparr>)"

definition handleKeyboard :: "keyboard \<Rightarrow> scan_result \<Rightarrow> sys_state \<Rightarrow> sys_state" where
  "handleKeyboard kb sc s =
     (if \<not> isChange kb then s
      else if \<not> isPressed kb then s
      else
        let ks = keysState kb in
        if list_ex (\<lambda>ch. ch = CHR ''r'' \<or> ch = CHR ''R'') (word ks) then
          scanNetworks sc (s\<lparr>wifi_calls := wifi_calls s @ [WiFi_disconnect1 True]\<rparr>)
        else
          case g_uiState s of
            UI_NO_NETWORKS \<Rightarrow> s
          | UI_SELECT_NETWORK \<Rightarrow>
              let s1 = fold nav_char (word ks) s
              in if enter ks \<and> g_networkCount s1 > 0 then
                   s1\<lparr>g_selectedSsid := ssid (g_networks s1 ! nat (g_selectedIndex s1)),
                      g_selectedIsOpen :=
                        (encType (g_networks s1 ! nat (g_selectedIndex s1)) = WIFI_AUTH_OPEN),
                      g_password := [],
                      g_uiState := UI_ENTER_PASSWORD,
                      g_needRedraw := True\<rparr>
                 else s1
          | UI_ENTER_PASSWORD \<Rightarrow>
              if list_ex (\<lambda>ch. ch = CHR ''q'' \<or> ch = CHR ''Q'') (word ks) then
                s\<lparr>g_uiState := UI_SELECT_NETWORK, g_password := [], g_needRedraw := True\<rparr>
              else if g_selectedIsOpen s then
                (if enter ks then startConnection s else s)
              else
                let s1 = fold type_char (word ks) s;
                    s2 = (if del ks \<and> length (g_password s1) > 0
                          then s1\<lparr>g_password := take (length (g_password s1) - 1) (g_password s1),
                                  g_needRedraw := True\<rparr>
                          else s1)
                in if enter ks then startConnection s2 else s2
          | UI_CONNECTING \<Rightarrow> s
          | UI_CONNECTED \<Rightarrow> s
          | UI_CONNECT_FAILED \<Rightarrow> s)"

section \<open>updateDisplayIfNeeded, setup and loop\<close>

definition updateDisplayIfNeeded :: "sys_state \<Rightarrow> sys_state" where
  "updateDisplayIfNeeded s = (if \<not> g_needRedraw s then s else s\<lparr>g_needRedraw := False\<rparr>)"

definition setup_main :: "scan_result \<Rightarrow> sys_state" where
  "setup_main sc = scanNetworks sc initial_state"

text \<open>
  What one pass of \<open>loop\<close> reads from outside: the keyboard, the scan that a rescan
  would perform, and the value \<open>WiFi.status()\<close> would return.
\<close>

record tick_input =
  tick_keyboard :: keyboard
  tick_scan :: scan_result
  tick_status :: wl_status_t

text \<open>The block of \<open>loop\<close> that monitors the connection.\<close>

definition poll_connection :: "wl_status_t \<Rightarrow> sys_state \<Rightarrow> sys_state" where
  "poll_connection st s =
     (if g_uiState s = UI_CONNECTING then
        (if st = WL_CONNECTED then s\<lparr>g_uiState := UI_CONNECTED, g_needRedraw := True\<rparr>
         else if st = WL_CONNECT_FAILED \<or> st = WL_NO_SSID_AVAIL
         then s\<lparr>g_uiState := UI_CONNECT_FAILED, g_needRedraw := True\<rparr>
         else s)
      else s)"

definition loop :: "tick_input \<Rightarrow> sys_state \<Rightarrow> sys_state" where
  "loop inp s =
     updateDisplayIfNeeded
       (poll_connection (tick_status inp)
          (handleKeyboard (tick_keyboard inp) (tick_scan inp) s))"

section \<open>The ranked set as the specification describes it\<close>

text \<open>
  The statement \<open>g_networkCount = 0\<close> that opens \<open>scanNetworks\<close> is the
  specification's \<open>reset()\<close>.
\<close>

definition reset :: "sys_state \<Rightarrow> sys_state" where
  "reset s = s\<lparr>g_networkCount := 0\<rparr>"

text \<open>A sequence of calls of \<open>insertNetworkSorted\<close>, one for each observation in turn.\<close>

definition insert_all :: "(string \<times> int \<times> u8) list \<Rightarrow> sys_state \<Rightarrow> sys_state" where
  "insert_all obs s = fold (\<lambda>(ss, r, e). insertNetworkSorted ss r e) obs s"

text \<open>
  The insertion position in the specification's words: the first index whose held
  strength is strictly less than the new strength, and the length when there is none.
\<close>

definition sorted_position :: "int \<Rightarrow> NetworkInfo list \<Rightarrow> nat" where
  "sorted_position r xs = length (takeWhile (\<lambda>a. r \<le> rssi a) xs)"

text \<open>
  The specification's \<open>offer(observation)\<close> on the held sequence: discard at capacity
  when not stronger than the last entry, otherwise drop the last entry at capacity and
  place the observation at the insertion position.
\<close>

definition offer :: "NetworkInfo \<Rightarrow> NetworkInfo list \<Rightarrow> NetworkInfo list" where
  "offer x xs =
     (if length xs = MAX_NETWORKS \<and> rssi x \<le> rssi (last xs) then xs
      else
        let pos = sorted_position (rssi x) xs;
            ys = (if length xs = MAX_NETWORKS then butlast xs else xs)
        in take pos ys @ x # drop pos ys)"

text \<open>Ordered by signal strength, strongest first.\<close>

definition strength_desc :: "NetworkInfo list \<Rightarrow> bool" where
  "strength_desc xs = sorted_wrt (\<lambda>a b. rssi b \<le> rssi a) xs"

definition ranked_inv :: "sys_state \<Rightarrow> bool" where
  "ranked_inv s \<longleftrightarrow> wf_state s \<and> strength_desc (held s)"

text \<open>The entries of a scan in the order the loop of \<open>scanNetworks\<close> visits them.\<close>

definition scan_observations :: "scan_result \<Rightarrow> (string \<times> int \<times> u8) list" where
  "scan_observations sc =
     map (\<lambda>i. (scan_SSID sc i, scan_RSSI sc i, scan_encryptionType sc i)) [0 ..< nat (scan_n sc)]"

text \<open>The observations with a non-empty name.\<close>

definition usable :: "(string \<times> int \<times> u8) list \<Rightarrow> (string \<times> int \<times> u8) list" where
  "usable obs = filter (\<lambda>(ss, r, e). ss \<noteq> []) obs"

text \<open>The specification's \<open>offer\<close>, for each observation in turn.\<close>

definition offer_all :: "(string \<times> int \<times> u8) list \<Rightarrow> NetworkInfo list \<Rightarrow> NetworkInfo list" where
  "offer_all obs xs = fold (\<lambda>(ss, r, e). offer \<lparr>ssid = ss, rssi = r, encType = e\<rparr>) obs xs"

section \<open>Keyboard events, connection status and the password buffer\<close>

text \<open>The keyboard reports a change with a key down, and \<open>r\<close> or \<open>R\<close> is among the
  characters: the condition under which \<open>handleKeyboard\<close> rescans.\<close>

definition rescan_key :: "keyboard \<Rightarrow> bool" where
  "rescan_key kb \<longleftrightarrow>
     isChange kb \<and> isPressed kb
     \<and> list_ex (\<lambda>ch. ch = CHR ''r'' \<or> ch = CHR ''R'') (word (keysState kb))"

text \<open>A keyboard report of a change with keys down.\<close>

definition pressed :: "KeysState \<Rightarrow> keyboard" where
  "pressed ks = \<lparr>isChange = True, isPressed = True, keysState = ks\<rparr>"

text \<open>The single character \<open>c\<close> is typed.\<close>

definition CharTyped :: "char \<Rightarrow> keyboard" where
  "CharTyped c = pressed \<lparr>word = [c], enter = False, del = False\<rparr>"

text \<open>The delete key alone.\<close>

definition KeyDelete :: keyboard where
  "KeyDelete = pressed \<lparr>word = [], enter = False, del = True\<rparr>"

text \<open>The enter key alone.\<close>

definition KeyConfirm :: keyboard where
  "KeyConfirm = pressed \<lparr>word = [], enter = True, del = False\<rparr>"

text \<open>A status that is neither the success nor one of the two failures \<open>loop\<close> tests for.\<close>

definition pending :: "wl_status_t \<Rightarrow> bool" where
  "pending st \<longleftrightarrow> st \<noteq> WL_CONNECTED \<and> st \<noteq> WL_CONNECT_FAILED \<and> st \<noteq> WL_NO_SSID_AVAIL"

text \<open>A pass of \<open>loop\<close> with a pending status and no rescan key.\<close>

definition pending_tick :: "tick_input \<Rightarrow> bool" where
  "pending_tick inp \<longleftrightarrow> pending (tick_status inp) \<and> \<not> rescan_key (tick_keyboard inp)"

text \<open>The network list is shown, is not empty, and the selection is one of its entries.\<close>

definition selecting :: "sys_state \<Rightarrow> bool" where
  "selecting s \<longleftrightarrow>
     g_uiState s = UI_SELECT_NETWORK
     \<and> 0 < g_networkCount s \<and> g_networkCount s \<le> MAX_NETWORKS
     \<and> 0 \<le> g_selectedIndex s \<and> g_selectedIndex s < int (g_networkCount s)"

text \<open>The characters \<open>handleKeyboard\<close> reads as rescan or as back.\<close>

definition reserved_char :: "char \<Rightarrow> bool" where
  "reserved_char ch \<longleftrightarrow> ch = CHR ''r'' \<or> ch = CHR ''R'' \<or> ch = CHR ''q'' \<or> ch = CHR ''Q''"

text \<open>A string without any of these characters.\<close>

definition clean :: "string \<Rightarrow> bool" where
  "clean pw = list_all (\<lambda>ch. \<not> reserved_char ch) pw"

text \<open>The passwords handed to \<open>WiFi.begin\<close>, in order.\<close>

definition entered_passwords :: "wifi_call list \<Rightarrow> string list" where
  "entered_passwords calls =
     concat (map (\<lambda>call. case call of WiFi_begin ss (Some pw) \<Rightarrow> [pw] | _ \<Rightarrow> []) calls)"

text \<open>Neither the password buffer nor any password handed to the driver holds such a character.\<close>

definition password_inv :: "sys_state \<Rightarrow> bool" where
  "password_inv s \<longleftrightarrow> clean (g_password s) \<and> list_all clean (entered_passwords (wifi_calls s))"

section \<open>Example inputs\<close>

text \<open>A scan reporting A (-40, WPA2), a hidden network, B (-70, open) and C (-55, WEP).\<close>

definition example_scan :: scan_result where
  "example_scan =
     \<lparr>scan_n = 4,
      scan_SSID = (\<lambda>i. [''A'', '''', ''B'', ''C''] ! i),
      scan_RSSI = (\<lambda>i. [-40, -30, -70, -55] ! i),
      scan_encryptionType = (\<lambda>i. [3, 3, 0, 1] ! i)\<rparr>"

text \<open>A scan reporting two networks, both hidden.\<close>

definition hidden_scan :: scan_result where
  "hidden_scan =
     \<lparr>scan_n = 2,
      scan_SSID = (\<lambda>i. []),
      scan_RSSI = (\<lambda>i. [-40, -30] ! i),
      scan_encryptionType = (\<lambda>i. 3)\<rparr>"

text \<open>A keyboard that reports no change.\<close>

definition idle_keyboard :: keyboard where
  "idle_keyboard =
     \<lparr>isChange = False, isPressed = False,
      keysState = \<lparr>word = [], enter = False, del = False\<rparr>\<rparr>"

text \<open>A pass of \<open>loop\<close> with this keyboard report, while the driver reports idle.\<close>

definition tick :: "keyboard \<Rightarrow> tick_input" where
  "tick kb = \<lparr>tick_keyboard = kb, tick_scan = example_scan, tick_status = WL_IDLE_STATUS\<rparr>"

text \<open>After the first scan, the enter key on the first entry (A, protected).\<close>

definition protected_entry :: sys_state where
  "protected_entry = handleKeyboard KeyConfirm example_scan (setup_main example_scan)"

text \<open>After the first scan, one step up to the last entry (B, open), then the enter key.\<close>

definition open_entry :: sys_state where
  "open_entry =
     handleKeyboard KeyConfirm example_scan
       (handleKeyboard (CharTyped CHR ''w'') example_scan (setup_main example_scan))"

text \<open>The enter key on the open network B: the connection attempt has begun.\<close>

definition connecting_example :: sys_state where
  "connecting_example = handleKeyboard KeyConfirm example_scan open_entry"

text \<open>Select A, type \<open>ab\<close>, confirm.\<close>

definition example_session :: "tick_input list" where
  "example_session =
     [tick KeyConfirm, tick (CharTyped CHR ''a''), tick (CharTyped CHR ''b''), tick KeyConfirm]"

text \<open>Ten observations, from -10 down to -100.\<close>

definition ten_observations :: "(string \<times> int \<times> u8) list" where
  "ten_observations =
     [(''n1'', -10, 3), (''n2'', -20, 3), (''n3'', -30, 3), (''n4'', -40, 3), (''n5'', -50, 3),
      (''n6'', -60, 3), (''n7'', -70, 3), (''n8'', -80, 3), (''n9'', -90, 3), (''n10'', -100, 3)]"

text \<open>A set at capacity.\<close>

definition full_example :: sys_state where
  "full_example = insert_all ten_observations (reset initial_state)"

text \<open>A set with two entries of equal strength.\<close>

definition tied_example :: sys_state where
  "tied_example =
     insert_all [(''A'', -40, 3), (''C'', -55, 1), (''D'', -55, 1)] (reset initial_state)"

section \<open>The two loops of insertNetworkSorted\<close>

lemma sorted_position_le: "sorted_position r xs \<le> length xs"
  by (simp add: sorted_position_def length_takeWhile_le)

lemma find_pos_from:
  "i \<le> cnt \<Longrightarrow> cnt \<le> length nets \<Longrightarrow>
   find_pos nets cnt r pos i =
     (if i + sorted_position r (drop i (take cnt nets)) < cnt
      then i + sorted_position r (drop i (take cnt nets)) else pos)"
proof (induction nets cnt r pos i rule: find_pos.induct)
  case (1 nets cnt r pos i)
  note unf = find_pos.simps [of nets cnt r pos i]
  show ?case
  proof (cases "i < cnt")
    case True
    then have d: "drop i (take cnt nets) = nets ! i # drop (Suc i) (take cnt nets)"
      using "1.prems" by (simp add: Cons_nth_drop_Suc [symmetric])
    show ?thesis
    proof (cases "r > rssi (nets ! i)")
      case True
      with \<open>i < cnt\<close> d unf show ?thesis by (simp add: sorted_position_def)
    next
      case False
      with \<open>i < cnt\<close> d "1.IH" "1.prems" unf show ?thesis by (simp add: sorted_position_def)
    qed
  next
    case False
    with "1.prems" unf show ?thesis by (simp add: sorted_position_def)
  qed
qed

lemma find_pos_held:
  "cnt \<le> length nets \<Longrightarrow> find_pos nets cnt r cnt 0 = sorted_position r (take cnt nets)"
  using find_pos_from [of 0 cnt nets r cnt] sorted_position_le [of r "take cnt nets"]
  by simp

lemma shift_down_length: "length (shift_down nets pos i) = length nets"
proof (induction nets pos i rule: shift_down.induct)
  case (1 nets pos i)
  then show ?case using shift_down.simps [of nets pos i] by (cases "i > pos") simp_all
qed

lemma shift_down_nth:
  "i < length nets \<Longrightarrow> j < length nets \<Longrightarrow>
   shift_down nets pos i ! j = (if pos < j \<and> j \<le> i then nets ! (j - 1) else nets ! j)"
proof (induction nets pos i rule: shift_down.induct)
  case (1 nets pos i)
  note unf = shift_down.simps [of nets pos i]
  show ?case
  proof (cases "i > pos")
    case True
    have "shift_down (nets[i := nets ! (i - 1)]) pos (i - 1) ! j =
      (if pos < j \<and> j \<le> i - 1 then (nets[i := nets ! (i - 1)]) ! (j - 1)
       else (nets[i := nets ! (i - 1)]) ! j)"
      using 1 True by simp
    then show ?thesis using "1.prems" True unf
      by (auto simp: nth_list_update)
  next
    case False
    then show ?thesis using unf by auto
  qed
qed

lemma shift_down_eq:
  assumes "pos \<le> i" "i < length nets"
  shows "shift_down nets pos i =
           take (Suc pos) nets @ take (i - pos) (drop pos nets) @ drop (Suc i) nets"
proof (rule nth_equalityI)
  show "length (shift_down nets pos i) =
          length (take (Suc pos) nets @ take (i - pos) (drop pos nets) @ drop (Suc i) nets)"
    using assms by (simp add: shift_down_length)
next
  fix j assume "j < length (shift_down nets pos i)"
  then have j: "j < length nets" by (simp add: shift_down_length)
  show "shift_down nets pos i ! j =
          (take (Suc pos) nets @ take (i - pos) (drop pos nets) @ drop (Suc i) nets) ! j"
    using assms j by (auto simp: shift_down_nth nth_append min_def)
qed

lemma sorted_position_stop:
  assumes "i < length xs" "rssi (xs ! i) < r"
  shows "sorted_position r xs \<le> i"
proof (rule ccontr)
  assume "\<not> sorted_position r xs \<le> i"
  then have lt: "i < length (takeWhile (\<lambda>a. r \<le> rssi a) xs)"
    by (simp add: sorted_position_def)
  then have "takeWhile (\<lambda>a. r \<le> rssi a) xs ! i \<in> set (takeWhile (\<lambda>a. r \<le> rssi a) xs)"
    by (rule nth_mem)
  then have "r \<le> rssi (takeWhile (\<lambda>a. r \<le> rssi a) xs ! i)"
    by (rule set_takeWhileD [THEN conjunct2])
  with lt assms(2) show False by (simp add: takeWhile_nth)
qed

lemma write_at_pos:
  assumes "pos \<le> limit" "limit < length nets"
  shows "take (Suc limit)
           ((take (Suc pos) nets @ take (limit - pos) (drop pos nets) @ drop (Suc limit) nets)
              [pos := x])
         = take pos nets @ x # drop pos (take limit nets)"
proof -
  have p: "pos < length nets" using assms by simp
  have "(take (Suc pos) nets @ take (limit - pos) (drop pos nets) @ drop (Suc limit) nets)
              [pos := x]
        = take pos nets @ x # take (limit - pos) (drop pos nets) @ drop (Suc limit) nets"
    using p by (simp add: take_Suc_conv_app_nth list_update_append)
  moreover have "take (Suc limit)
      ((take pos nets @ x # take (limit - pos) (drop pos nets)) @ drop (Suc limit) nets)
      = take pos nets @ x # take (limit - pos) (drop pos nets)"
    using assms by (subst take_append) simp
  ultimately show ?thesis
    by (simp add: drop_take)
qed

lemma last_held_full:
  assumes "length (g_networks s) = MAX_NETWORKS" "g_networkCount s = MAX_NETWORKS"
  shows "last (held s) = g_networks s ! (g_networkCount s - 1)"
proof -
  have "held s = g_networks s" using assms by (simp add: held_def)
  moreover have "g_networks s \<noteq> []" using assms by (auto simp: MAX_NETWORKS_def)
  ultimately show ?thesis using assms by (simp add: last_conv_nth)
qed

lemma NetworkInfo_all_fields:
  "(x :: NetworkInfo)\<lparr>ssid := ss, rssi := r, encType := e\<rparr> = \<lparr>ssid = ss, rssi = r, encType = e\<rparr>"
  by (cases x) simp

lemma held_insert:
  assumes "wf_state s"
  shows "held (insertNetworkSorted ss r e s) =
           offer \<lparr>ssid = ss, rssi = r, encType = e\<rparr> (held s)"
proof -
  let ?nets = "g_networks s" and ?cnt = "g_networkCount s"
  have len: "length ?nets = MAX_NETWORKS" and cnt: "?cnt \<le> MAX_NETWORKS"
    using assms by (simp_all add: wf_state_def)
  have hlen: "length (held s) = ?cnt" using len cnt by (simp add: held_def)
  show ?thesis
  proof (cases "?cnt = MAX_NETWORKS \<and> r \<le> rssi (?nets ! (?cnt - 1))")
    case True
    then have c: "?cnt = MAX_NETWORKS" and le: "r \<le> rssi (?nets ! (?cnt - 1))"
      by blast+
    have "last (held s) = ?nets ! (?cnt - 1)"
      using len c by (rule last_held_full)
    with le have "r \<le> rssi (last (held s))" by simp
    moreover have "insertNetworkSorted ss r e s = s"
      using c le by (simp add: insertNetworkSorted_def)
    ultimately show ?thesis
      using hlen c by (simp add: offer_def)
  next
    case False
    define limit where "limit = (if ?cnt < MAX_NETWORKS then ?cnt else MAX_NETWORKS - 1)"
    define pos where "pos = sorted_position r (held s)"
    have fp: "find_pos ?nets ?cnt r ?cnt 0 = pos"
      using len cnt by (simp add: find_pos_held pos_def held_def)
    have lim: "limit < length ?nets"
      using len by (simp add: limit_def MAX_NETWORKS_def)
    have pl: "pos \<le> limit"
    proof (cases "?cnt < MAX_NETWORKS")
      case True
      then show ?thesis
        using sorted_position_le [of r "held s"] hlen by (simp add: pos_def limit_def)
    next
      case full: False
      with cnt have c: "?cnt = MAX_NETWORKS" by simp
      with False have "rssi (?nets ! (MAX_NETWORKS - 1)) < r" by simp
      then have "rssi (held s ! (MAX_NETWORKS - 1)) < r"
        using c by (simp add: held_def MAX_NETWORKS_def)
      then have "sorted_position r (held s) \<le> MAX_NETWORKS - 1"
        using hlen c by (intro sorted_position_stop) (simp_all add: MAX_NETWORKS_def)
      then show ?thesis using c by (simp add: pos_def limit_def)
    qed
    have ys: "(if length (held s) = MAX_NETWORKS then butlast (held s) else held s)
                = take limit ?nets"
      using hlen cnt len by (auto simp: limit_def held_def butlast_conv_take)
    have last_ne: "\<not> (length (held s) = MAX_NETWORKS \<and> r \<le> rssi (last (held s)))"
    proof
      assume a: "length (held s) = MAX_NETWORKS \<and> r \<le> rssi (last (held s))"
      then have "last (held s) = ?nets ! (?cnt - 1)"
        using len hlen by (simp add: last_held_full)
      with a hlen False show False by auto
    qed
    have cnt': "(if ?cnt < MAX_NETWORKS then ?cnt + 1 else ?cnt) = Suc limit"
      using cnt by (simp add: limit_def MAX_NETWORKS_def)
    have "insertNetworkSorted ss r e s =
            (let pos0 = (if ?cnt > MAX_NETWORKS then MAX_NETWORKS else ?cnt);
                 pos = find_pos ?nets ?cnt r pos0 0;
                 limit = (if ?cnt < MAX_NETWORKS then ?cnt else MAX_NETWORKS - 1);
                 nets1 = shift_down ?nets pos limit;
                 nets2 = nets1[pos := (nets1 ! pos)\<lparr>ssid := ss, rssi := r, encType := e\<rparr>]
             in s\<lparr>g_networks := nets2,
                  g_networkCount := (if ?cnt < MAX_NETWORKS then ?cnt + 1 else ?cnt)\<rparr>)"
      unfolding insertNetworkSorted_def using False by (rule if_not_P)
    also have "\<dots> = s\<lparr>g_networks :=
                         (shift_down ?nets pos limit)
                           [pos := \<lparr>ssid = ss, rssi = r, encType = e\<rparr>],
                       g_networkCount := Suc limit\<rparr>"
      using cnt fp cnt' by (simp add: Let_def limit_def [symmetric] NetworkInfo_all_fields)
    finally have "held (insertNetworkSorted ss r e s) =
            take (Suc limit)
              ((shift_down ?nets pos limit)[pos := \<lparr>ssid = ss, rssi = r, encType = e\<rparr>])"
      by (simp add: held_def)
    also have "\<dots> = take pos ?nets @ \<lparr>ssid = ss, rssi = r, encType = e\<rparr>
                      # drop pos (take limit ?nets)"
      using pl lim by (simp add: shift_down_eq write_at_pos)
    also have "\<dots> = offer \<lparr>ssid = ss, rssi = r, encType = e\<rparr> (held s)"
    proof -
      have "take pos ?nets = take pos (take limit ?nets)" using pl by (simp add: min_def)
      then show ?thesis
        using last_ne ys pl by (auto simp: offer_def Let_def pos_def [symmetric] min_def)
    qed
    finally show ?thesis .
  qed
qed

lemma wf_insert: "wf_state s \<Longrightarrow> wf_state (insertNetworkSorted ss r e s)"
  by (auto simp: wf_state_def insertNetworkSorted_def Let_def shift_down_length)

section \<open>Insertion keeps the order\<close>

lemma strength_desc_adjacent:
  "strength_desc xs \<longleftrightarrow> (\<forall>i. Suc i < length xs \<longrightarrow> rssi (xs ! Suc i) \<le> rssi (xs ! i))"
  unfolding strength_desc_def
  by (rule sorted_wrt_iff_nth_Suc_transp) (auto simp: transp_def)

lemma dropWhile_weaker:
  "strength_desc xs \<Longrightarrow> b \<in> set (dropWhile (\<lambda>a. r \<le> rssi a) xs) \<Longrightarrow> rssi b < r"
  by (induction xs) (auto simp: strength_desc_def split: if_splits)

lemma sorted_position_take: "take (sorted_position r xs) xs = takeWhile (\<lambda>a. r \<le> rssi a) xs"
  by (simp add: sorted_position_def takeWhile_eq_take [symmetric])

lemma sorted_position_drop: "drop (sorted_position r xs) xs = dropWhile (\<lambda>a. r \<le> rssi a) xs"
  by (simp add: sorted_position_def dropWhile_eq_drop [symmetric])

lemma sorted_position_butlast:
  assumes "xs \<noteq> []" "rssi (last xs) < r"
  shows "sorted_position r xs \<le> length xs - 1"
  using assms by (intro sorted_position_stop) (simp_all add: last_conv_nth)

lemma insert_at_sorted:
  assumes "strength_desc xs" "ys = xs \<or> (ys = butlast xs \<and> sorted_position (rssi x) xs \<le> length ys)"
  shows "strength_desc (take (sorted_position (rssi x) xs) ys @ x # drop (sorted_position (rssi x) xs) ys)"
proof -
  let ?p = "sorted_position (rssi x) xs"
  have "take ?p (butlast xs) = take ?p xs" if "?p \<le> length (butlast xs)"
    using that by (simp add: butlast_conv_take min_absorb1)
  then have pre: "take ?p ys = take ?p xs"
    using assms(2) by blast
  have post: "set (drop ?p ys) \<subseteq> set (drop ?p xs)"
    using assms(2) by (auto simp: drop_butlast dest: in_set_butlastD)
  have sy: "strength_desc ys"
    using assms by (auto simp: strength_desc_def butlast_conv_take sorted_wrt_take)
  have a: "\<forall>a\<in>set (take ?p ys). rssi x \<le> rssi a"
    unfolding pre sorted_position_take by (auto dest: set_takeWhileD)
  have b: "\<forall>b\<in>set (drop ?p ys). rssi b < rssi x"
    using post assms(1) unfolding sorted_position_drop by (auto dest: dropWhile_weaker)
  have "strength_desc (take ?p ys)" "strength_desc (drop ?p ys)"
    using sy by (simp_all add: strength_desc_def sorted_wrt_take sorted_wrt_drop)
  moreover have "\<forall>a\<in>set (take ?p ys). \<forall>b\<in>set (drop ?p ys). rssi b \<le> rssi a"
    using a b by fastforce
  ultimately show ?thesis
    using a b by (auto simp: strength_desc_def sorted_wrt_append)
qed

lemma offer_sorted:
  assumes "strength_desc xs"
  shows "strength_desc (offer x xs)"
proof (cases "length xs = MAX_NETWORKS \<and> rssi x \<le> rssi (last xs)")
  case True
  with assms show ?thesis by (simp add: offer_def)
next
  case False
  show ?thesis
  proof (cases "length xs = MAX_NETWORKS")
    case full: True
    with False have "rssi (last xs) < rssi x" by auto
    moreover from full have "xs \<noteq> []" by (auto simp: MAX_NETWORKS_def)
    ultimately have "sorted_position (rssi x) xs \<le> length (butlast xs)"
      using sorted_position_butlast [of xs "rssi x"] by simp
    then show ?thesis
      using False full insert_at_sorted [OF assms, of "butlast xs" x]
      by (auto simp: offer_def Let_def)
  next
    case notfull: False
    then show ?thesis
      using insert_at_sorted [OF assms, of xs x] by (simp add: offer_def Let_def)
  qed
qed

lemma offer_length:
  "length (offer x xs) =
     (if length xs = MAX_NETWORKS \<and> rssi x \<le> rssi (last xs) then length xs
      else if length xs = MAX_NETWORKS then MAX_NETWORKS else Suc (length xs))"
  by (auto simp: offer_def Let_def MAX_NETWORKS_def)

lemma ranked_inv_insert: "ranked_inv s \<Longrightarrow> ranked_inv (insertNetworkSorted ss r e s)"
  by (simp add: ranked_inv_def wf_insert held_insert offer_sorted)

lemma ranked_inv_fold:
  "ranked_inv s \<Longrightarrow> ranked_inv (insert_all obs s)"
  unfolding insert_all_def by (induction obs arbitrary: s) (auto simp: ranked_inv_insert)

lemma held_length: "wf_state s \<Longrightarrow> length (held s) = g_networkCount s"
  by (simp add: held_def wf_state_def)

section \<open>Position and order\<close>

lemma sorted_position_before:
  "j < sorted_position r xs \<Longrightarrow> r \<le> rssi (xs ! j)"
proof -
  assume j: "j < sorted_position r xs"
  then have "takeWhile (\<lambda>a. r \<le> rssi a) xs ! j \<in> set (takeWhile (\<lambda>a. r \<le> rssi a) xs)"
    by (simp add: sorted_position_def)
  then have "r \<le> rssi (takeWhile (\<lambda>a. r \<le> rssi a) xs ! j)"
    by (rule set_takeWhileD [THEN conjunct2])
  with j show ?thesis by (simp add: sorted_position_def takeWhile_nth)
qed

lemma sorted_position_at:
  "sorted_position r xs < length xs \<Longrightarrow> rssi (xs ! sorted_position r xs) < r"
  using nth_length_takeWhile [of "\<lambda>a. r \<le> rssi a" xs]
  by (simp add: sorted_position_def)

lemma strength_desc_last:
  assumes "strength_desc xs" "a \<in> set xs"
  shows "rssi (last xs) \<le> rssi a"
proof -
  from assms(2) obtain i where i: "i < length xs" "xs ! i = a"
    by (auto simp: in_set_conv_nth)
  then have ne: "xs \<noteq> []" by auto
  show ?thesis
  proof (cases "i = length xs - 1")
    case True
    with i ne show ?thesis by (simp add: last_conv_nth)
  next
    case False
    with i have "i < length xs - 1" by simp
    then have "rssi (xs ! (length xs - 1)) \<le> rssi (xs ! i)"
      using assms(1) i(1) by (simp add: strength_desc_def sorted_wrt_iff_nth_less)
    with i ne show ?thesis by (simp add: last_conv_nth)
  qed
qed

lemma insert_at_nth:
  assumes "pos \<le> length ys"
  shows "(take pos ys @ x # drop pos ys) ! j =
           (if j < pos then ys ! j else if j = pos then x else ys ! (j - 1))"
proof -
  have "pos + x2 = j - Suc 0" if "j - pos = Suc x2" for x2
    using that by arith
  then show ?thesis
    using assms by (auto simp: nth_append min_def nth_Cons split: nat.splits)
qed

lemma after_position_weaker:
  assumes "strength_desc xs" "sorted_position r xs \<le> k" "k < length xs"
  shows "rssi (xs ! k) < r"
proof -
  have "xs ! k = drop (sorted_position r xs) xs ! (k - sorted_position r xs)"
    using assms(2,3) by simp
  moreover have "k - sorted_position r xs < length (drop (sorted_position r xs) xs)"
    using assms(2,3) by simp
  ultimately have "xs ! k \<in> set (drop (sorted_position r xs) xs)"
    by (metis nth_mem)
  then show ?thesis
    using assms(1) by (simp add: sorted_position_drop dropWhile_weaker)
qed

lemma ranked_inv_reset:
  "length (g_networks s) = MAX_NETWORKS \<Longrightarrow> ranked_inv (reset s)"
  by (simp add: reset_def ranked_inv_def wf_state_def held_def strength_desc_def)

section \<open>Fields that insertion leaves alone\<close>

lemma insert_other_fields:
  "g_selectedIndex (insertNetworkSorted ss r e s) = g_selectedIndex s"
  "g_selectedSsid (insertNetworkSorted ss r e s) = g_selectedSsid s"
  "g_selectedIsOpen (insertNetworkSorted ss r e s) = g_selectedIsOpen s"
  "g_password (insertNetworkSorted ss r e s) = g_password s"
  "g_needRedraw (insertNetworkSorted ss r e s) = g_needRedraw s"
  "g_uiState (insertNetworkSorted ss r e s) = g_uiState s"
  "wifi_calls (insertNetworkSorted ss r e s) = wifi_calls s"
  by (simp_all add: insertNetworkSorted_def Let_def)

lemma insert_count_pos: "0 < g_networkCount (insertNetworkSorted ss r e s)"
  by (auto simp: insertNetworkSorted_def Let_def MAX_NETWORKS_def)

lemma insert_all_other_fields:
  "g_selectedIndex (insert_all obs s) = g_selectedIndex s"
  "g_selectedSsid (insert_all obs s) = g_selectedSsid s"
  "g_selectedIsOpen (insert_all obs s) = g_selectedIsOpen s"
  "g_password (insert_all obs s) = g_password s"
  "g_needRedraw (insert_all obs s) = g_needRedraw s"
  "g_uiState (insert_all obs s) = g_uiState s"
  "wifi_calls (insert_all obs s) = wifi_calls s"
  unfolding insert_all_def
  by (induction obs arbitrary: s; simp add: insert_other_fields split: prod.splits)+

lemma insert_all_Nil: "insert_all [] s = s"
  by (simp add: insert_all_def)

lemma insert_all_Cons:
  "insert_all ((ss, r, e) # obs) s = insert_all obs (insertNetworkSorted ss r e s)"
  by (simp add: insert_all_def)

lemma insert_all_append: "insert_all (xs @ ys) s = insert_all ys (insert_all xs s)"
  by (simp add: insert_all_def)

lemma insert_all_count_pos:
  "obs \<noteq> [] \<Longrightarrow> 0 < g_networkCount (insert_all obs s)"
proof (induction obs arbitrary: s rule: rev_induct)
  case Nil
  then show ?case by simp
next
  case (snoc x xs)
  obtain ss r e where x: "x = (ss, r, e)" by (cases x)
  show ?case
    by (simp add: x insert_all_append insert_all_Cons insert_all_Nil insert_count_pos)
qed

lemma wf_insert_all: "wf_state s \<Longrightarrow> wf_state (insert_all obs s)"
  unfolding insert_all_def
  by (induction obs arbitrary: s) (auto simp: wf_insert)

lemma held_insert_all:
  "wf_state s \<Longrightarrow> held (insert_all obs s) = offer_all obs (held s)"
  unfolding insert_all_def offer_all_def
  by (induction obs arbitrary: s) (auto simp: wf_insert held_insert)

section \<open>scanNetworks in one equation\<close>

lemma fold_scan_entry:
  "fold (scan_entry sc) is s =
     insert_all
       (usable (map (\<lambda>i. (scan_SSID sc i, scan_RSSI sc i, scan_encryptionType sc i)) is)) s"
  by (induction "is" arbitrary: s)
     (simp_all add: scan_entry_def usable_def insert_all_Nil insert_all_Cons Let_def)

lemma scanNetworks_eq:
  "scanNetworks sc s =
     (let s' = insert_all (usable (scan_observations sc))
                 ((reset s)\<lparr>g_selectedIndex := 0,
                    wifi_calls := wifi_calls s @ [WiFi_mode_STA, WiFi_disconnect1 True, WiFi_scanNetworks]\<rparr>)
      in s'\<lparr>g_selectedIndex := 0,
            g_uiState := (if usable (scan_observations sc) = [] then UI_NO_NETWORKS
                          else UI_SELECT_NETWORK),
            g_needRedraw := True\<rparr>)"
proof (cases "scan_n sc \<le> 0")
  case True
  then have "scan_observations sc = []" by (simp add: scan_observations_def)
  with True show ?thesis
    by (simp add: scanNetworks_def usable_def insert_all_Nil reset_def Let_def)
next
  case False
  let ?obs = "usable (scan_observations sc)"
  let ?s2 = "(reset s)\<lparr>g_selectedIndex := 0,
                wifi_calls := wifi_calls s @ [WiFi_mode_STA, WiFi_disconnect1 True, WiFi_scanNetworks]\<rparr>"
  have cz: "g_networkCount (insert_all ?obs ?s2) = 0 \<longleftrightarrow> ?obs = []"
  proof (cases "?obs = []")
    case True
    then show ?thesis by (simp add: insert_all_Nil reset_def)
  next
    case ne: False
    then have "0 < g_networkCount (insert_all ?obs ?s2)" by (rule insert_all_count_pos)
    with ne show ?thesis by simp
  qed
  have idx: "g_selectedIndex (insert_all ?obs ?s2) = 0"
    by (simp add: insert_all_other_fields)
  show ?thesis
  proof (cases "?obs = []")
    case True
    with False cz idx show ?thesis
      by (simp add: scanNetworks_def Let_def fold_scan_entry reset_def
          scan_observations_def [symmetric] insert_all_Nil)
  next
    case nonempty: False
    with False cz show ?thesis
      by (simp add: scanNetworks_def Let_def fold_scan_entry reset_def
          scan_observations_def [symmetric])
  qed
qed

lemma usable_empty_iff:
  "usable (scan_observations sc) = [] \<longleftrightarrow> (\<forall>i. int i < scan_n sc \<longrightarrow> scan_SSID sc i = [])"
  by (auto simp: usable_def scan_observations_def filter_empty_conv)

lemma offer_all_empty_iff: "offer_all obs [] = [] \<longleftrightarrow> obs = []"
proof
  show "obs = [] \<Longrightarrow> offer_all obs [] = []" by (simp add: offer_all_def)
next
  assume e: "offer_all obs [] = []"
  let ?s = "reset initial_state"
  have wf: "wf_state ?s" by (simp add: wf_state_def reset_def initial_state_def)
  have h: "held ?s = []" by (simp add: held_def reset_def)
  show "obs = []"
  proof (rule ccontr)
    assume "obs \<noteq> []"
    then have "0 < g_networkCount (insert_all obs ?s)" by (rule insert_all_count_pos)
    moreover have "length (held (insert_all obs ?s)) = g_networkCount (insert_all obs ?s)"
      using wf by (intro held_length wf_insert_all)
    ultimately show False using e wf h by (simp add: held_insert_all)
  qed
qed

lemma scanNetworks_held:
  assumes "length (g_networks s) = MAX_NETWORKS"
  shows "held (scanNetworks sc s) = offer_all (usable (scan_observations sc)) []"
    and "wf_state (scanNetworks sc s)"
proof -
  let ?obs = "usable (scan_observations sc)"
  let ?s2 = "(reset s)\<lparr>g_selectedIndex := 0,
                wifi_calls := wifi_calls s
                  @ [WiFi_mode_STA, WiFi_disconnect1 True, WiFi_scanNetworks]\<rparr>"
  have wf: "wf_state ?s2" using assms by (simp add: wf_state_def reset_def)
  have h: "held ?s2 = []" by (simp add: held_def reset_def)
  have "held (scanNetworks sc s) = held (insert_all ?obs ?s2)"
    by (simp add: scanNetworks_eq Let_def held_def)
  then show "held (scanNetworks sc s) = offer_all ?obs []"
    using wf h by (simp add: held_insert_all)
  have "wf_state (insert_all ?obs ?s2)" using wf by (rule wf_insert_all)
  then show "wf_state (scanNetworks sc s)"
    by (simp add: scanNetworks_eq Let_def wf_state_def)
qed

lemma handleKeyboard_rescan:
  "rescan_key kb \<Longrightarrow>
   handleKeyboard kb sc s =
     scanNetworks sc (s\<lparr>wifi_calls := wifi_calls s @ [WiFi_disconnect1 True]\<rparr>)"
  by (simp add: handleKeyboard_def rescan_key_def Let_def)

section \<open>The connecting state\<close>

lemma handleKeyboard_connecting:
  "g_uiState s = UI_CONNECTING \<Longrightarrow> \<not> rescan_key kb \<Longrightarrow> handleKeyboard kb sc s = s"
  by (auto simp: handleKeyboard_def rescan_key_def Let_def)

lemma loop_pending:
  assumes "g_uiState s = UI_CONNECTING" "pending_tick inp"
  shows "loop inp s = s\<lparr>g_needRedraw := False\<rparr>"
proof -
  have "handleKeyboard (tick_keyboard inp) (tick_scan inp) s = s"
    using assms by (simp add: handleKeyboard_connecting pending_tick_def)
  then show ?thesis
    using assms
    by (cases "g_needRedraw s")
       (simp_all add: loop_def poll_connection_def updateDisplayIfNeeded_def pending_tick_def
          pending_def)
qed

lemma fold_loop_pending:
  "g_uiState s = UI_CONNECTING \<Longrightarrow> \<forall>inp\<in>set inps. pending_tick inp \<Longrightarrow>
   g_uiState (fold loop inps s) = UI_CONNECTING"
  by (induction inps arbitrary: s) (simp_all add: loop_pending)

section \<open>Moving the selection\<close>

lemma key_up_step:
  assumes "selecting s" "c = CHR ''w'' \<or> c = CHR ''W''"
  shows "handleKeyboard (CharTyped c) sc s
           = s\<lparr>g_selectedIndex := (g_selectedIndex s - 1) mod int (g_networkCount s),
               g_needRedraw := True\<rparr>"
proof -
  have m: "(g_selectedIndex s - 1) mod int (g_networkCount s)
             = (if g_selectedIndex s - 1 < 0 then int (g_networkCount s) - 1
                else g_selectedIndex s - 1)"
  proof (cases "g_selectedIndex s = 0")
    case True
    then show ?thesis using assms(1) by (simp add: selecting_def zmod_minus1)
  next
    case False
    then show ?thesis using assms(1) by (simp add: selecting_def)
  qed
  show ?thesis
    unfolding m using assms
    by (auto simp: selecting_def handleKeyboard_def CharTyped_def pressed_def nav_char_def Let_def)
qed

lemma key_down_step:
  assumes "selecting s" "c = CHR ''s'' \<or> c = CHR ''S''"
  shows "handleKeyboard (CharTyped c) sc s
           = s\<lparr>g_selectedIndex := (g_selectedIndex s + 1) mod int (g_networkCount s),
               g_needRedraw := True\<rparr>"
proof -
  have m: "(g_selectedIndex s + 1) mod int (g_networkCount s)
             = (if int (g_networkCount s) \<le> g_selectedIndex s + 1 then 0
                else g_selectedIndex s + 1)"
  proof (cases "g_selectedIndex s + 1 = int (g_networkCount s)")
    case True
    then show ?thesis by simp
  next
    case False
    then show ?thesis using assms(1) by (simp add: selecting_def)
  qed
  show ?thesis
    unfolding m using assms
    by (auto simp: selecting_def handleKeyboard_def CharTyped_def pressed_def nav_char_def Let_def)
qed

lemma selecting_moved:
  "selecting s \<Longrightarrow>
   selecting (s\<lparr>g_selectedIndex := k mod int (g_networkCount s), g_needRedraw := True\<rparr>)"
  by (simp add: selecting_def)

lemma key_down_repeat:
  assumes "selecting s" "c = CHR ''s'' \<or> c = CHR ''S''"
  shows "selecting ((handleKeyboard (CharTyped c) sc ^^ k) s)
       \<and> g_networkCount ((handleKeyboard (CharTyped c) sc ^^ k) s) = g_networkCount s
       \<and> g_selectedIndex ((handleKeyboard (CharTyped c) sc ^^ k) s)
           = (g_selectedIndex s + int k) mod int (g_networkCount s)"
proof (induction k)
  case 0
  then show ?case using assms(1) by (simp add: selecting_def)
next
  case (Suc k)
  let ?t = "(handleKeyboard (CharTyped c) sc ^^ k) s"
  have st: "handleKeyboard (CharTyped c) sc ?t
              = ?t\<lparr>g_selectedIndex := (g_selectedIndex ?t + 1) mod int (g_networkCount ?t),
                   g_needRedraw := True\<rparr>"
    using Suc assms(2) by (intro key_down_step) simp_all
  have "(g_selectedIndex ?t + 1) mod int (g_networkCount s)
          = (g_selectedIndex s + int (Suc k)) mod int (g_networkCount s)"
    using Suc by (simp add: mod_simps ac_simps)
  then show ?case
    using Suc selecting_moved [of ?t "g_selectedIndex ?t + 1"] by (simp add: st)
qed

lemma key_up_repeat:
  assumes "selecting s" "c = CHR ''w'' \<or> c = CHR ''W''"
  shows "selecting ((handleKeyboard (CharTyped c) sc ^^ k) s)
       \<and> g_networkCount ((handleKeyboard (CharTyped c) sc ^^ k) s) = g_networkCount s
       \<and> g_selectedIndex ((handleKeyboard (CharTyped c) sc ^^ k) s)
           = (g_selectedIndex s - int k) mod int (g_networkCount s)"
proof (induction k)
  case 0
  then show ?case using assms(1) by (simp add: selecting_def)
next
  case (Suc k)
  let ?t = "(handleKeyboard (CharTyped c) sc ^^ k) s"
  have st: "handleKeyboard (CharTyped c) sc ?t
              = ?t\<lparr>g_selectedIndex := (g_selectedIndex ?t - 1) mod int (g_networkCount ?t),
                   g_needRedraw := True\<rparr>"
    using Suc assms(2) by (intro key_up_step) simp_all
  have "(g_selectedIndex ?t - 1) mod int (g_networkCount s)
          = (g_selectedIndex s - int (Suc k)) mod int (g_networkCount s)"
    using Suc by (simp add: mod_simps algebra_simps)
  then show ?case
    using Suc selecting_moved [of ?t "g_selectedIndex ?t - 1"] by (simp add: st)
qed

section \<open>The password buffer\<close>

lemma entered_passwords_append:
  "entered_passwords (xs @ ys) = entered_passwords xs @ entered_passwords ys"
  by (simp add: entered_passwords_def)

lemma password_inv_scanNetworks: "password_inv s \<Longrightarrow> password_inv (scanNetworks sc s)"
  by (simp add: password_inv_def scanNetworks_eq Let_def insert_all_other_fields reset_def
      entered_passwords_append)
     (simp add: entered_passwords_def)

lemma password_inv_startConnection: "password_inv s \<Longrightarrow> password_inv (startConnection s)"
  by (simp add: password_inv_def startConnection_def Let_def entered_passwords_append)
     (simp add: entered_passwords_def)

lemma fold_nav_char_fields:
  "g_password (fold nav_char w s) = g_password s"
  "wifi_calls (fold nav_char w s) = wifi_calls s"
  by (induction w arbitrary: s; simp add: nav_char_def Let_def)+

lemma fold_type_char_fields:
  "g_password (fold type_char w s)
     = g_password s @ filter (\<lambda>ch. ch \<noteq> CHR ''q'' \<and> ch \<noteq> CHR ''Q'') w"
  "wifi_calls (fold type_char w s) = wifi_calls s"
  by (induction w arbitrary: s; simp add: type_char_def)+

lemma clean_take: "clean pw \<Longrightarrow> clean (take n pw)"
  by (auto simp: clean_def list_all_iff dest: in_set_takeD)

lemma clean_typed:
  assumes "clean pw" "\<not> list_ex (\<lambda>ch. ch = CHR ''r'' \<or> ch = CHR ''R'') w"
  shows "clean (pw @ filter (\<lambda>ch. ch \<noteq> CHR ''q'' \<and> ch \<noteq> CHR ''Q'') w)"
  using assms by (auto simp: clean_def list_all_iff list_ex_iff reserved_char_def)

lemma password_inv_handleKeyboard:
  assumes "password_inv s"
  shows "password_inv (handleKeyboard kb sc s)"
proof (cases "isChange kb \<and> isPressed kb")
  case False
  then show ?thesis using assms by (auto simp: handleKeyboard_def)
next
  case active: True
  let ?w = "word (keysState kb)"
  show ?thesis
  proof (cases "list_ex (\<lambda>ch. ch = CHR ''r'' \<or> ch = CHR ''R'') ?w")
    case True
    have "password_inv (s\<lparr>wifi_calls := wifi_calls s @ [WiFi_disconnect1 True]\<rparr>)"
      using assms by (simp add: password_inv_def entered_passwords_append)
                     (simp add: entered_passwords_def)
    then have "password_inv (scanNetworks sc (s\<lparr>wifi_calls := wifi_calls s @ [WiFi_disconnect1 True]\<rparr>))"
      by (rule password_inv_scanNetworks)
    with active True show ?thesis by (simp add: handleKeyboard_def Let_def)
  next
    case nor: False
    show ?thesis
    proof (cases "g_uiState s")
      case UI_SELECT_NETWORK
      have "password_inv (fold nav_char ?w s)"
        using assms by (simp add: password_inv_def fold_nav_char_fields)
      then have "password_inv ((fold nav_char ?w s)\<lparr>g_selectedSsid := a, g_selectedIsOpen := b,
                   g_password := [], g_uiState := UI_ENTER_PASSWORD, g_needRedraw := True\<rparr>)" for a b
        by (simp add: password_inv_def clean_def)
      with \<open>password_inv (fold nav_char ?w s)\<close> active nor UI_SELECT_NETWORK show ?thesis
        by (simp add: handleKeyboard_def Let_def)
    next
      case UI_ENTER_PASSWORD
      show ?thesis
      proof (cases "list_ex (\<lambda>ch. ch = CHR ''q'' \<or> ch = CHR ''Q'') ?w")
        case True
        have "password_inv (s\<lparr>g_uiState := UI_SELECT_NETWORK, g_password := [], g_needRedraw := True\<rparr>)"
          using assms by (simp add: password_inv_def clean_def)
        with active nor UI_ENTER_PASSWORD True show ?thesis
          by (simp add: handleKeyboard_def Let_def)
      next
        case noq: False
        show ?thesis
        proof (cases "g_selectedIsOpen s")
          case True
          with active nor UI_ENTER_PASSWORD noq assms show ?thesis
            by (simp add: handleKeyboard_def Let_def password_inv_startConnection)
        next
          case False
          let ?s1 = "fold type_char ?w s"
          let ?s2 = "if del (keysState kb) \<and> length (g_password ?s1) > 0
                     then ?s1\<lparr>g_password := take (length (g_password ?s1) - 1) (g_password ?s1),
                              g_needRedraw := True\<rparr>
                     else ?s1"
          have 1: "password_inv ?s1"
            using assms nor by (simp add: password_inv_def fold_type_char_fields clean_typed)
          then have 2: "password_inv ?s2"
            by (simp add: password_inv_def clean_take)
          then have 3: "password_inv (startConnection ?s2)"
            by (rule password_inv_startConnection)
          have "handleKeyboard kb sc s = (if enter (keysState kb) then startConnection ?s2 else ?s2)"
            using active nor UI_ENTER_PASSWORD noq False
            by (simp add: handleKeyboard_def Let_def)
          with 2 3 show ?thesis by simp
        qed
      qed
    qed (use assms active nor in \<open>simp_all add: handleKeyboard_def Let_def\<close>)
  qed
qed

lemma password_inv_loop: "password_inv s \<Longrightarrow> password_inv (loop inp s)"
proof -
  assume "password_inv s"
  then have "password_inv (handleKeyboard (tick_keyboard inp) (tick_scan inp) s)"
    by (rule password_inv_handleKeyboard)
  then show ?thesis
    by (simp add: loop_def poll_connection_def updateDisplayIfNeeded_def password_inv_def)
qed

lemma password_inv_setup: "password_inv (setup_main sc)"
proof -
  have "password_inv initial_state"
    by (simp add: password_inv_def initial_state_def clean_def entered_passwords_def)
  then show ?thesis unfolding setup_main_def by (rule password_inv_scanNetworks)
qed

lemma password_inv_reachable: "password_inv s \<Longrightarrow> password_inv (fold loop inps s)"
  by (induction inps arbitrary: s) (simp_all add: password_inv_loop)

section \<open>The ranking invariant\<close>

text \<open>
  Claim C1. Start from a reset set and call \<open>insertNetworkSorted\<close> for the
  observations of any sequence, in turn. After each call, that is after the first \<open>k\<close>
  calls for any \<open>k\<close>, the held sequence has at most \<open>MAX_NETWORKS\<close> (10) entries,
  and every entry is at least as strong as the entry stored right after it.
\<close>

theorem insertNetworkSorted_keeps_ranking:
  assumes "length (g_networks s) = MAX_NETWORKS"
  shows "let s' = insert_all (take k obs) (reset s)
         in length (held s') \<le> 10
            \<and> g_networkCount s' = length (held s')
            \<and> (\<forall>i. Suc i < length (held s') \<longrightarrow>
                  rssi (held s' ! Suc i) \<le> rssi (held s' ! i))"
proof -
  have "ranked_inv (reset s)"
    using assms by (rule ranked_inv_reset)
  then have "ranked_inv (insert_all (take k obs) (reset s))"
    by (rule ranked_inv_fold)
  then show ?thesis
    by (auto simp: Let_def ranked_inv_def held_length strength_desc_adjacent wf_state_def
        MAX_NETWORKS_def)
qed

theorem insertNetworkSorted_keeps_ranking_witness:
  "length (g_networks initial_state) = MAX_NETWORKS
   \<and> map ssid (held (insert_all (take 2 [(''A'', -40, 3), (''B'', -70, 0), (''C'', -55, 1)])
                        (reset initial_state))) = [''A'', ''B'']
   \<and> map ssid (held (insert_all (take 3 [(''A'', -40, 3), (''B'', -70, 0), (''C'', -55, 1)])
                        (reset initial_state))) = [''A'', ''C'', ''B'']
   \<and> (let s' = insert_all (take 3 [(''A'', -40, 3), (''B'', -70, 0), (''C'', -55, 1)])
                  (reset initial_state)
      in length (held s') \<le> 10
         \<and> g_networkCount s' = length (held s')
         \<and> (\<forall>i. Suc i < length (held s') \<longrightarrow>
               rssi (held s' ! Suc i) \<le> rssi (held s' ! i)))"
proof -
  have h: "length (g_networks initial_state) = MAX_NETWORKS"
    by (simp add: initial_state_def)
  have e2: "map ssid (held (insert_all (take 2 [(''A'', -40, 3), (''B'', -70, 0), (''C'', -55, 1)])
                        (reset initial_state))) = [''A'', ''B'']"
    by code_simp
  have e3: "map ssid (held (insert_all (take 3 [(''A'', -40, 3), (''B'', -70, 0), (''C'', -55, 1)])
                        (reset initial_state))) = [''A'', ''C'', ''B'']"
    by code_simp
  from h e2 e3
    insertNetworkSorted_keeps_ranking
      [OF h, of 3 "[(''A'', -40, 3), (''B'', -70, 0), (''C'', -55, 1)]"]
  show ?thesis by blast
qed

section \<open>Insertion at capacity\<close>

text \<open>
  Claim C2. Let the set hold \<open>MAX_NETWORKS\<close> entries, strongest first, so that its
  last entry is its weakest. An observation that is not stronger than the last entry
  leaves every global as it was. A stronger one is written at the first index whose
  entry is strictly weaker; the entries before that index stay, the entries from that
  index on move down by one, the previous last entry is gone, and the count stays at
  \<open>MAX_NETWORKS\<close>.
\<close>

theorem insertNetworkSorted_at_capacity:
  assumes "ranked_inv s" and "g_networkCount s = MAX_NETWORKS"
  shows "(\<forall>a\<in>set (held s). rssi (last (held s)) \<le> rssi a)
       \<and> (r \<le> rssi (last (held s)) \<longrightarrow> insertNetworkSorted ss r e s = s)
       \<and> (rssi (last (held s)) < r \<longrightarrow>
            (let pos = sorted_position r (held s); s' = insertNetworkSorted ss r e s
             in pos < MAX_NETWORKS
                \<and> rssi (held s ! pos) < r
                \<and> (\<forall>j<pos. r \<le> rssi (held s ! j))
                \<and> held s' = take pos (butlast (held s))
                              @ \<lparr>ssid = ss, rssi = r, encType = e\<rparr>
                              # drop pos (butlast (held s))
                \<and> g_networkCount s' = MAX_NETWORKS
                \<and> length (held s') = MAX_NETWORKS))"
proof (intro conjI impI)
  have wf: "wf_state s" and sd: "strength_desc (held s)"
    using assms(1) by (simp_all add: ranked_inv_def)
  have len: "length (g_networks s) = MAX_NETWORKS" using wf by (simp add: wf_state_def)
  have hlen: "length (held s) = MAX_NETWORKS" using wf assms(2) by (simp add: held_length)
  have lst: "last (held s) = g_networks s ! (g_networkCount s - 1)"
    using len assms(2) by (rule last_held_full)
  show "\<forall>a\<in>set (held s). rssi (last (held s)) \<le> rssi a"
    using sd by (blast intro: strength_desc_last)
  show "insertNetworkSorted ss r e s = s" if "r \<le> rssi (last (held s))"
    using that assms(2) lst by (simp add: insertNetworkSorted_def)
  show "let pos = sorted_position r (held s); s' = insertNetworkSorted ss r e s
        in pos < MAX_NETWORKS
           \<and> rssi (held s ! pos) < r
           \<and> (\<forall>j<pos. r \<le> rssi (held s ! j))
           \<and> held s' = take pos (butlast (held s))
                         @ \<lparr>ssid = ss, rssi = r, encType = e\<rparr>
                         # drop pos (butlast (held s))
           \<and> g_networkCount s' = MAX_NETWORKS
           \<and> length (held s') = MAX_NETWORKS"
    if gt: "rssi (last (held s)) < r"
  proof -
    have ne: "held s \<noteq> []" using hlen by (auto simp: MAX_NETWORKS_def)
    have "sorted_position r (held s) \<le> length (held s) - 1"
      using ne gt by (rule sorted_position_butlast)
    then have p: "sorted_position r (held s) < MAX_NETWORKS"
      using hlen by (simp add: MAX_NETWORKS_def)
    have at: "rssi (held s ! sorted_position r (held s)) < r"
      using p hlen by (simp add: sorted_position_at)
    have h': "held (insertNetworkSorted ss r e s) =
                take (sorted_position r (held s)) (butlast (held s))
                  @ \<lparr>ssid = ss, rssi = r, encType = e\<rparr>
                  # drop (sorted_position r (held s)) (butlast (held s))"
      using gt hlen by (simp add: held_insert [OF wf] offer_def Let_def)
    have wf': "wf_state (insertNetworkSorted ss r e s)" using wf by (rule wf_insert)
    have l': "length (held (insertNetworkSorted ss r e s)) = MAX_NETWORKS"
      using gt hlen by (simp add: held_insert [OF wf] offer_length)
    then have c': "g_networkCount (insertNetworkSorted ss r e s) = MAX_NETWORKS"
      using wf' by (simp add: held_length)
    show ?thesis
      using p at h' l' c' by (simp add: Let_def sorted_position_before)
  qed
qed

theorem insertNetworkSorted_at_capacity_witness:
  "ranked_inv full_example
   \<and> g_networkCount full_example = MAX_NETWORKS
   \<and> map rssi (held full_example) = [-10, -20, -30, -40, -50, -60, -70, -80, -90, -100]
   \<and> insertNetworkSorted ''X'' (-100) 0 full_example = full_example
   \<and> sorted_position (-55) (held full_example) = 5
   \<and> map rssi (held (insertNetworkSorted ''X'' (-55) 0 full_example))
       = [-10, -20, -30, -40, -50, -55, -60, -70, -80, -90]
   \<and> (let pos = sorted_position (-55) (held full_example);
           s' = insertNetworkSorted ''X'' (-55) 0 full_example
       in pos < MAX_NETWORKS
          \<and> rssi (held full_example ! pos) < -55
          \<and> (\<forall>j<pos. -55 \<le> rssi (held full_example ! j))
          \<and> held s' = take pos (butlast (held full_example))
                        @ \<lparr>ssid = ''X'', rssi = -55, encType = 0\<rparr>
                        # drop pos (butlast (held full_example))
          \<and> g_networkCount s' = MAX_NETWORKS
          \<and> length (held s') = MAX_NETWORKS)"
proof -
  have "length (g_networks initial_state) = MAX_NETWORKS" by (simp add: initial_state_def)
  then have h1: "ranked_inv full_example"
    unfolding full_example_def by (intro ranked_inv_fold ranked_inv_reset)
  have h2: "g_networkCount full_example = MAX_NETWORKS" by code_simp
  have e1: "map rssi (held full_example) = [-10, -20, -30, -40, -50, -60, -70, -80, -90, -100]"
    by code_simp
  have a: "(-100) \<le> rssi (last (held full_example))" by code_simp
  have b: "rssi (last (held full_example)) < -55" by code_simp
  have e2: "sorted_position (-55) (held full_example) = 5" by code_simp
  have e3: "map rssi (held (insertNetworkSorted ''X'' (-55) 0 full_example))
       = [-10, -20, -30, -40, -50, -55, -60, -70, -80, -90]" by code_simp
  from insertNetworkSorted_at_capacity [OF h1 h2, of "-100" "''X''" 0] a
  have c1: "insertNetworkSorted ''X'' (-100) 0 full_example = full_example" by blast
  from insertNetworkSorted_at_capacity [OF h1 h2, of "-55" "''X''" 0] b
  have c2: "let pos = sorted_position (-55) (held full_example);
           s' = insertNetworkSorted ''X'' (-55) 0 full_example
       in pos < MAX_NETWORKS
          \<and> rssi (held full_example ! pos) < -55
          \<and> (\<forall>j<pos. -55 \<le> rssi (held full_example ! j))
          \<and> held s' = take pos (butlast (held full_example))
                        @ \<lparr>ssid = ''X'', rssi = -55, encType = 0\<rparr>
                        # drop pos (butlast (held full_example))
          \<and> g_networkCount s' = MAX_NETWORKS
          \<and> length (held s') = MAX_NETWORKS" by blast
  from h1 h2 e1 c1 e2 e3 c2 show ?thesis by blast
qed

section \<open>Ties\<close>

text \<open>
  Claim C3. In a set ordered strongest first, an observation that is not discarded is
  written at the first index whose entry is strictly weaker than it, or after the last
  entry when there is none. The entries before that index are at least as strong and
  stay where they are; the entries after it are the old entries from that index on, in
  their old order, and each is strictly weaker. So entries as strong as the new one all
  come before it, and entries held before keep their order. A discarded observation
  changes nothing.
\<close>

theorem insertNetworkSorted_stable:
  assumes "ranked_inv s"
  shows "let h = held s; s' = insertNetworkSorted ss r e s; h' = held s';
             pos = sorted_position r h
         in if g_networkCount s = MAX_NETWORKS \<and> r \<le> rssi (last h) then s' = s
            else pos \<le> length h
               \<and> (\<forall>j<pos. r \<le> rssi (h ! j))
               \<and> (pos < length h \<longrightarrow> rssi (h ! pos) < r)
               \<and> pos < length h'
               \<and> h' ! pos = \<lparr>ssid = ss, rssi = r, encType = e\<rparr>
               \<and> (\<forall>j<pos. h' ! j = h ! j)
               \<and> (\<forall>j. pos < j \<and> j < length h' \<longrightarrow>
                      h' ! j = h ! (j - 1) \<and> rssi (h' ! j) < r)"
proof -
  let ?h = "held s" and ?s' = "insertNetworkSorted ss r e s"
  let ?pos = "sorted_position r (held s)"
  let ?new = "\<lparr>ssid = ss, rssi = r, encType = e\<rparr>"
  have wf: "wf_state s" and sd: "strength_desc ?h"
    using assms by (simp_all add: ranked_inv_def)
  have len: "length (g_networks s) = MAX_NETWORKS" and cnt: "g_networkCount s \<le> MAX_NETWORKS"
    using wf by (simp_all add: wf_state_def)
  have hlen: "length ?h = g_networkCount s" using wf by (rule held_length)
  show ?thesis
  proof (cases "g_networkCount s = MAX_NETWORKS \<and> r \<le> rssi (last ?h)")
    case True
    then have "g_networkCount s = MAX_NETWORKS" and "r \<le> rssi (last ?h)" by blast+
    then have "?s' = s"
      using last_held_full [OF len] by (simp add: insertNetworkSorted_def)
    with True show ?thesis by (simp add: Let_def)
  next
    case False
    define ys where "ys = (if length ?h = MAX_NETWORKS then butlast ?h else ?h)"
    have h': "held ?s' = take ?pos ys @ ?new # drop ?pos ys"
      using False hlen by (auto simp: held_insert [OF wf] offer_def Let_def ys_def)
    have pys: "?pos \<le> length ys"
    proof (cases "length ?h = MAX_NETWORKS")
      case True
      with False hlen have "rssi (last ?h) < r" by auto
      moreover from True have "?h \<noteq> []" by (auto simp: MAX_NETWORKS_def)
      ultimately have "?pos \<le> length ?h - 1" by (intro sorted_position_butlast)
      with True show ?thesis by (simp add: ys_def)
    next
      case False
      then show ?thesis by (simp add: ys_def sorted_position_le)
    qed
    have ysn: "ys ! k = ?h ! k" if "k < length ys" for k
      using that by (auto simp: ys_def nth_butlast)
    have ysl: "length ys \<le> length ?h" by (simp add: ys_def)
    have l': "length (held ?s') = Suc (length ys)" using pys by (simp add: h')
    have 1: "?pos \<le> length ?h" by (rule sorted_position_le)
    have 2: "\<forall>j<?pos. r \<le> rssi (?h ! j)" by (simp add: sorted_position_before)
    have 3: "?pos < length ?h \<longrightarrow> rssi (?h ! ?pos) < r" by (simp add: sorted_position_at)
    have 4: "?pos < length (held ?s')" using pys l' by simp
    have 5: "held ?s' ! ?pos = ?new" using pys by (simp add: h' insert_at_nth)
    have 6: "\<forall>j<?pos. held ?s' ! j = ?h ! j"
      using pys by (simp add: h' insert_at_nth ysn)
    have 7: "\<forall>j. ?pos < j \<and> j < length (held ?s') \<longrightarrow>
                 held ?s' ! j = ?h ! (j - 1) \<and> rssi (held ?s' ! j) < r"
    proof (intro allI impI)
      fix j assume j: "?pos < j \<and> j < length (held ?s')"
      then have k: "j - 1 < length ys" "?pos \<le> j - 1" using l' by auto
      have eq: "held ?s' ! j = ?h ! (j - 1)"
        using pys j k by (simp add: h' insert_at_nth ysn)
      moreover have "rssi (?h ! (j - 1)) < r"
        using sd k ysl by (intro after_position_weaker) auto
      ultimately show "held ?s' ! j = ?h ! (j - 1) \<and> rssi (held ?s' ! j) < r" by simp
    qed
    show ?thesis
      using False 1 2 3 4 5 6 7 unfolding Let_def by (simp only: if_False)
  qed
qed

theorem insertNetworkSorted_stable_witness:
  "ranked_inv tied_example
   \<and> map ssid (held tied_example) = [''A'', ''C'', ''D'']
   \<and> map rssi (held tied_example) = [-40, -55, -55]
   \<and> map ssid (held (insertNetworkSorted ''E'' (-55) 0 tied_example))
       = [''A'', ''C'', ''D'', ''E'']
   \<and> (let h = held tied_example; s' = insertNetworkSorted ''E'' (-55) 0 tied_example;
           h' = held s'; pos = sorted_position (-55) h
       in if g_networkCount tied_example = MAX_NETWORKS \<and> -55 \<le> rssi (last h)
          then s' = tied_example
          else pos \<le> length h
             \<and> (\<forall>j<pos. -55 \<le> rssi (h ! j))
             \<and> (pos < length h \<longrightarrow> rssi (h ! pos) < -55)
             \<and> pos < length h'
             \<and> h' ! pos = \<lparr>ssid = ''E'', rssi = -55, encType = 0\<rparr>
             \<and> (\<forall>j<pos. h' ! j = h ! j)
             \<and> (\<forall>j. pos < j \<and> j < length h' \<longrightarrow>
                    h' ! j = h ! (j - 1) \<and> rssi (h' ! j) < -55))"
proof -
  have "length (g_networks initial_state) = MAX_NETWORKS" by (simp add: initial_state_def)
  then have h1: "ranked_inv tied_example"
    unfolding tied_example_def by (intro ranked_inv_fold ranked_inv_reset)
  have e1: "map ssid (held tied_example) = [''A'', ''C'', ''D'']" by code_simp
  have e2: "map rssi (held tied_example) = [-40, -55, -55]" by code_simp
  have e3: "map ssid (held (insertNetworkSorted ''E'' (-55) 0 tied_example))
       = [''A'', ''C'', ''D'', ''E'']" by code_simp
  from h1 e1 e2 e3 insertNetworkSorted_stable [OF h1, of "''E''" "-55" 0]
  show ?thesis by blast
qed

section \<open>Rescan\<close>

text \<open>
  Claim C4. In any state, a keyboard report with \<open>r\<close> or \<open>R\<close> among its
  characters makes \<open>handleKeyboard\<close> rescan: the held sequence afterwards is what
  offering the usable observations of the new scan to an empty set gives, whatever was
  held before; the state is \<open>UI_NO_NETWORKS\<close> when that sequence is empty and
  \<open>UI_SELECT_NETWORK\<close> otherwise, never one of the other four; the selection is at 0;
  and the rest of the same pass of \<open>loop\<close> changes neither the state nor the held
  sequence.
\<close>

theorem rescan_from_any_state:
  assumes "length (g_networks s) = MAX_NETWORKS" and "rescan_key kb"
  shows "let s' = handleKeyboard kb sc s;
             t = loop \<lparr>tick_keyboard = kb, tick_scan = sc, tick_status = st\<rparr> s
         in (g_uiState s' = UI_NO_NETWORKS \<or> g_uiState s' = UI_SELECT_NETWORK)
            \<and> held s' = offer_all (usable (scan_observations sc)) []
            \<and> (g_uiState s' = UI_NO_NETWORKS \<longleftrightarrow> held s' = [])
            \<and> g_selectedIndex s' = 0
            \<and> g_uiState t = g_uiState s'
            \<and> held t = held s'"
proof -
  let ?s0 = "s\<lparr>wifi_calls := wifi_calls s @ [WiFi_disconnect1 True]\<rparr>"
  let ?obs = "usable (scan_observations sc)"
  have hk: "handleKeyboard kb sc s = scanNetworks sc ?s0"
    using assms(2) by (rule handleKeyboard_rescan)
  have len: "length (g_networks ?s0) = MAX_NETWORKS" using assms(1) by simp
  have h: "held (scanNetworks sc ?s0) = offer_all ?obs []"
    using len by (rule scanNetworks_held)
  have ui: "g_uiState (scanNetworks sc ?s0) = (if ?obs = [] then UI_NO_NETWORKS else UI_SELECT_NETWORK)"
    and ix: "g_selectedIndex (scanNetworks sc ?s0) = 0"
    by (simp_all add: scanNetworks_eq Let_def)
  have t: "g_uiState (loop \<lparr>tick_keyboard = kb, tick_scan = sc, tick_status = st\<rparr> s)
             = g_uiState (scanNetworks sc ?s0)"
    "held (loop \<lparr>tick_keyboard = kb, tick_scan = sc, tick_status = st\<rparr> s)
             = held (scanNetworks sc ?s0)"
    using ui by (simp_all add: loop_def hk poll_connection_def updateDisplayIfNeeded_def held_def)
  show ?thesis
    unfolding Let_def hk using h ui ix t by (simp add: offer_all_empty_iff)
qed

theorem rescan_from_any_state_witness:
  "length (g_networks connecting_example) = MAX_NETWORKS
   \<and> rescan_key (CharTyped CHR ''R'')
   \<and> g_uiState connecting_example = UI_CONNECTING
   \<and> g_uiState (handleKeyboard (CharTyped CHR ''R'') example_scan connecting_example)
       = UI_SELECT_NETWORK
   \<and> g_uiState (handleKeyboard (CharTyped CHR ''R'') hidden_scan connecting_example)
       = UI_NO_NETWORKS
   \<and> (let s' = handleKeyboard (CharTyped CHR ''R'') example_scan connecting_example;
           t = loop \<lparr>tick_keyboard = CharTyped CHR ''R'', tick_scan = example_scan,
                     tick_status = WL_CONNECTED\<rparr> connecting_example
       in (g_uiState s' = UI_NO_NETWORKS \<or> g_uiState s' = UI_SELECT_NETWORK)
          \<and> held s' = offer_all (usable (scan_observations example_scan)) []
          \<and> (g_uiState s' = UI_NO_NETWORKS \<longleftrightarrow> held s' = [])
          \<and> g_selectedIndex s' = 0
          \<and> g_uiState t = g_uiState s'
          \<and> held t = held s')"
proof -
  have h1: "length (g_networks connecting_example) = MAX_NETWORKS" by code_simp
  have h2: "rescan_key (CharTyped CHR ''R'')"
    by (simp add: rescan_key_def CharTyped_def pressed_def)
  have e1: "g_uiState connecting_example = UI_CONNECTING" by code_simp
  have e2: "g_uiState (handleKeyboard (CharTyped CHR ''R'') example_scan connecting_example)
       = UI_SELECT_NETWORK" by code_simp
  have e3: "g_uiState (handleKeyboard (CharTyped CHR ''R'') hidden_scan connecting_example)
       = UI_NO_NETWORKS" by code_simp
  from h1 h2 e1 e2 e3
    rescan_from_any_state [OF h1 h2, of example_scan WL_CONNECTED]
  show ?thesis by blast
qed

section \<open>Hidden networks and empty scans\<close>

text \<open>
  Claim C5. \<open>scanNetworks\<close> calls \<open>insertNetworkSorted\<close> for the entries with a
  non-empty name only, in scan order, on a reset set. When no entry has a non-empty name
  (the scan reports none, or an error, or only hidden ones) the state becomes
  \<open>UI_NO_NETWORKS\<close> with a count of 0; otherwise it becomes \<open>UI_SELECT_NETWORK\<close> with
  the selection at 0 and a positive count.
\<close>

theorem scanNetworks_filters_hidden:
  "let obs = usable (scan_observations sc); s' = scanNetworks sc s
   in s' = (insert_all obs
              ((reset s)\<lparr>g_selectedIndex := 0,
                 wifi_calls := wifi_calls s
                   @ [WiFi_mode_STA, WiFi_disconnect1 True, WiFi_scanNetworks]\<rparr>))
             \<lparr>g_selectedIndex := 0,
              g_uiState := (if obs = [] then UI_NO_NETWORKS else UI_SELECT_NETWORK),
              g_needRedraw := True\<rparr>
      \<and> obs = filter (\<lambda>(ss, r, e). ss \<noteq> []) (scan_observations sc)
      \<and> (obs = [] \<longleftrightarrow> (\<forall>i. int i < scan_n sc \<longrightarrow> scan_SSID sc i = []))
      \<and> (obs = [] \<longrightarrow> g_uiState s' = UI_NO_NETWORKS \<and> g_networkCount s' = 0)
      \<and> (obs \<noteq> [] \<longrightarrow> g_uiState s' = UI_SELECT_NETWORK \<and> g_selectedIndex s' = 0
                        \<and> 0 < g_networkCount s')"
proof -
  let ?obs = "usable (scan_observations sc)"
  let ?s2 = "(reset s)\<lparr>g_selectedIndex := 0,
                wifi_calls := wifi_calls s
                  @ [WiFi_mode_STA, WiFi_disconnect1 True, WiFi_scanNetworks]\<rparr>"
  have eq: "scanNetworks sc s =
              (insert_all ?obs ?s2)
                \<lparr>g_selectedIndex := 0,
                 g_uiState := (if ?obs = [] then UI_NO_NETWORKS else UI_SELECT_NETWORK),
                 g_needRedraw := True\<rparr>"
    by (simp add: scanNetworks_eq Let_def)
  have z: "?obs = [] \<Longrightarrow> g_networkCount (scanNetworks sc s) = 0"
    by (simp add: eq insert_all_Nil reset_def)
  have p: "?obs \<noteq> [] \<Longrightarrow> 0 < g_networkCount (scanNetworks sc s)"
    by (simp add: eq insert_all_count_pos)
  have u: "?obs = [] \<Longrightarrow> g_uiState (scanNetworks sc s) = UI_NO_NETWORKS"
    and v: "?obs \<noteq> [] \<Longrightarrow> g_uiState (scanNetworks sc s) = UI_SELECT_NETWORK"
    and i: "g_selectedIndex (scanNetworks sc s) = 0"
    by (simp_all add: eq)
  show ?thesis
    unfolding Let_def
  proof (intro conjI)
    show "scanNetworks sc s =
            (insert_all ?obs ?s2)
              \<lparr>g_selectedIndex := 0,
               g_uiState := (if ?obs = [] then UI_NO_NETWORKS else UI_SELECT_NETWORK),
               g_needRedraw := True\<rparr>"
      by (rule eq)
    show "?obs = filter (\<lambda>(ss, r, e). ss \<noteq> []) (scan_observations sc)"
      by (simp add: usable_def)
    show "(?obs = []) = (\<forall>i. int i < scan_n sc \<longrightarrow> scan_SSID sc i = [])"
      by (rule usable_empty_iff)
    show "?obs = [] \<longrightarrow>
            g_uiState (scanNetworks sc s) = UI_NO_NETWORKS
            \<and> g_networkCount (scanNetworks sc s) = 0"
      using u z by blast
    show "?obs \<noteq> [] \<longrightarrow>
            g_uiState (scanNetworks sc s) = UI_SELECT_NETWORK
            \<and> g_selectedIndex (scanNetworks sc s) = 0
            \<and> 0 < g_networkCount (scanNetworks sc s)"
      using v i p by blast
  qed
qed

theorem scanNetworks_filters_hidden_witness:
  "usable (scan_observations example_scan) = [(''A'', -40, 3), (''B'', -70, 0), (''C'', -55, 1)]
   \<and> g_uiState (scanNetworks example_scan initial_state) = UI_SELECT_NETWORK
   \<and> g_selectedIndex (scanNetworks example_scan initial_state) = 0
   \<and> 0 < g_networkCount (scanNetworks example_scan initial_state)
   \<and> map ssid (held (scanNetworks example_scan initial_state)) = [''A'', ''C'', ''B'']
   \<and> usable (scan_observations hidden_scan) = []
   \<and> g_uiState (scanNetworks hidden_scan protected_entry) = UI_NO_NETWORKS
   \<and> g_networkCount (scanNetworks hidden_scan protected_entry) = 0"
proof -
  have a: "usable (scan_observations example_scan)
             = [(''A'', -40, 3), (''B'', -70, 0), (''C'', -55, 1)]" by code_simp
  then have a': "usable (scan_observations example_scan) \<noteq> []" by simp
  have b: "usable (scan_observations hidden_scan) = []" by code_simp
  have e: "map ssid (held (scanNetworks example_scan initial_state)) = [''A'', ''C'', ''B'']"
    by code_simp
  from a' scanNetworks_filters_hidden [of example_scan initial_state]
  have c1: "g_uiState (scanNetworks example_scan initial_state) = UI_SELECT_NETWORK
          \<and> g_selectedIndex (scanNetworks example_scan initial_state) = 0
          \<and> 0 < g_networkCount (scanNetworks example_scan initial_state)"
    unfolding Let_def by blast
  from b scanNetworks_filters_hidden [of hidden_scan protected_entry]
  have c2: "g_uiState (scanNetworks hidden_scan protected_entry) = UI_NO_NETWORKS
          \<and> g_networkCount (scanNetworks hidden_scan protected_entry) = 0"
    unfolding Let_def by blast
  from a b e c1 c2 show ?thesis by blast
qed

section \<open>Polling the connection\<close>

text \<open>
  Claim C6. Take a pass of \<open>loop\<close> that starts in \<open>UI_CONNECTING\<close> and in which the
  keyboard does not ask for a rescan. The pass is then the connection block applied to
  the unchanged state, followed by the redraw: the status \<open>WL_CONNECTED\<close> leads to
  \<open>UI_CONNECTED\<close>, the statuses \<open>WL_CONNECT_FAILED\<close> and \<open>WL_NO_SSID_AVAIL\<close>
  lead to \<open>UI_CONNECT_FAILED\<close>, and every other status leaves the state at
  \<open>UI_CONNECTING\<close>. After any number of such passes with other statuses the state is
  still \<open>UI_CONNECTING\<close>: nothing counts the passes.
\<close>

theorem connecting_poll:
  assumes "g_uiState s = UI_CONNECTING" and "\<not> rescan_key kb"
  shows "let s' = loop \<lparr>tick_keyboard = kb, tick_scan = sc, tick_status = st\<rparr> s
         in s' = updateDisplayIfNeeded (poll_connection st s)
            \<and> (st = WL_CONNECTED \<longrightarrow> g_uiState s' = UI_CONNECTED)
            \<and> (st = WL_CONNECT_FAILED \<or> st = WL_NO_SSID_AVAIL \<longrightarrow>
                 g_uiState s' = UI_CONNECT_FAILED)
            \<and> (pending st \<longrightarrow> g_uiState s' = UI_CONNECTING)
            \<and> ((\<forall>inp\<in>set inps. pending_tick inp) \<longrightarrow>
                 g_uiState (fold loop inps s) = UI_CONNECTING)"
proof -
  have hk: "handleKeyboard kb sc s = s"
    using assms by (rule handleKeyboard_connecting)
  have l: "loop \<lparr>tick_keyboard = kb, tick_scan = sc, tick_status = st\<rparr> s
             = updateDisplayIfNeeded (poll_connection st s)"
    by (simp add: loop_def hk)
  have ui: "g_uiState (updateDisplayIfNeeded x) = g_uiState x" for x
    by (simp add: updateDisplayIfNeeded_def)
  show ?thesis
    unfolding Let_def l ui
    using assms(1) fold_loop_pending [OF assms(1), of inps]
    by (auto simp: poll_connection_def pending_def)
qed

theorem connecting_poll_witness:
  "g_uiState connecting_example = UI_CONNECTING
   \<and> \<not> rescan_key idle_keyboard
   \<and> g_uiState (loop \<lparr>tick_keyboard = idle_keyboard, tick_scan = example_scan,
                       tick_status = WL_CONNECTED\<rparr> connecting_example) = UI_CONNECTED
   \<and> g_uiState (loop \<lparr>tick_keyboard = idle_keyboard, tick_scan = example_scan,
                       tick_status = WL_CONNECT_FAILED\<rparr> connecting_example)
       = UI_CONNECT_FAILED
   \<and> g_uiState (loop \<lparr>tick_keyboard = idle_keyboard, tick_scan = example_scan,
                       tick_status = WL_NO_SSID_AVAIL\<rparr> connecting_example)
       = UI_CONNECT_FAILED
   \<and> g_uiState (loop \<lparr>tick_keyboard = idle_keyboard, tick_scan = example_scan,
                       tick_status = WL_DISCONNECTED\<rparr> connecting_example)
       = UI_CONNECTING
   \<and> g_uiState (fold loop (replicate 1000 (tick idle_keyboard)) connecting_example)
       = UI_CONNECTING"
proof -
  have h1: "g_uiState connecting_example = UI_CONNECTING" by code_simp
  have h2: "\<not> rescan_key idle_keyboard" by (simp add: rescan_key_def idle_keyboard_def)
  have p: "pending WL_DISCONNECTED" by (simp add: pending_def)
  have q: "\<forall>inp\<in>set (replicate 1000 (tick idle_keyboard)). pending_tick inp"
    using h2 by (simp add: pending_tick_def tick_def pending_def)
  note t = connecting_poll [OF h1 h2, of example_scan _ "replicate 1000 (tick idle_keyboard)",
      unfolded Let_def]
  from t [of WL_CONNECTED] have 1:
    "g_uiState (loop \<lparr>tick_keyboard = idle_keyboard, tick_scan = example_scan,
                       tick_status = WL_CONNECTED\<rparr> connecting_example) = UI_CONNECTED"
    by blast
  from t [of WL_CONNECT_FAILED] have 2:
    "g_uiState (loop \<lparr>tick_keyboard = idle_keyboard, tick_scan = example_scan,
                       tick_status = WL_CONNECT_FAILED\<rparr> connecting_example)
       = UI_CONNECT_FAILED"
    by blast
  from t [of WL_NO_SSID_AVAIL] have 3:
    "g_uiState (loop \<lparr>tick_keyboard = idle_keyboard, tick_scan = example_scan,
                       tick_status = WL_NO_SSID_AVAIL\<rparr> connecting_example)
       = UI_CONNECT_FAILED"
    by blast
  from t [of WL_DISCONNECTED] p q have 4:
    "g_uiState (loop \<lparr>tick_keyboard = idle_keyboard, tick_scan = example_scan,
                       tick_status = WL_DISCONNECTED\<rparr> connecting_example)
       = UI_CONNECTING"
    "g_uiState (fold loop (replicate 1000 (tick idle_keyboard)) connecting_example)
       = UI_CONNECTING"
    by blast+
  from h1 h2 1 2 3 4 show ?thesis by blast
qed

section \<open>Typing a password\<close>

text \<open>
  Claim C7, amended. In \<open>UI_ENTER_PASSWORD\<close> for a protected network, a typed
  character other than \<open>q\<close>, \<open>Q\<close>, \<open>r\<close> and \<open>R\<close> is appended to the password
  buffer and nothing else changes but the redraw flag; the delete key removes the last
  character of a non-empty buffer and leaves an empty buffer, and the whole state,
  unchanged; typing \<open>a\<close>, \<open>b\<close> and then delete on an empty buffer leaves \<open>a\<close>.
\<close>

theorem password_typing:
  assumes "g_uiState s = UI_ENTER_PASSWORD" and "\<not> g_selectedIsOpen s"
  shows "(c \<noteq> CHR ''q'' \<and> c \<noteq> CHR ''Q'' \<and> c \<noteq> CHR ''r'' \<and> c \<noteq> CHR ''R'' \<longrightarrow>
            handleKeyboard (CharTyped c) sc s
              = s\<lparr>g_password := g_password s @ [c], g_needRedraw := True\<rparr>)
       \<and> (g_password s \<noteq> [] \<longrightarrow>
            handleKeyboard KeyDelete sc s
              = s\<lparr>g_password := butlast (g_password s), g_needRedraw := True\<rparr>)
       \<and> (g_password s = [] \<longrightarrow> handleKeyboard KeyDelete sc s = s)
       \<and> (g_password s = [] \<longrightarrow>
            g_password
              (handleKeyboard KeyDelete sc
                 (handleKeyboard (CharTyped CHR ''b'') sc
                    (handleKeyboard (CharTyped CHR ''a'') sc s))) = ''a'')"
  using assms
  by (simp add: handleKeyboard_def CharTyped_def KeyDelete_def pressed_def type_char_def
      butlast_conv_take Let_def)

theorem password_typing_witness:
  "g_uiState protected_entry = UI_ENTER_PASSWORD
   \<and> \<not> g_selectedIsOpen protected_entry
   \<and> g_password protected_entry = []
   \<and> handleKeyboard (CharTyped CHR ''a'') example_scan protected_entry
       = protected_entry\<lparr>g_password := g_password protected_entry @ [CHR ''a''],
                          g_needRedraw := True\<rparr>
   \<and> handleKeyboard KeyDelete example_scan protected_entry = protected_entry
   \<and> g_password
        (handleKeyboard KeyDelete example_scan
           (handleKeyboard (CharTyped CHR ''b'') example_scan
              (handleKeyboard (CharTyped CHR ''a'') example_scan protected_entry))) = ''a''"
proof -
  have h1: "g_uiState protected_entry = UI_ENTER_PASSWORD" by code_simp
  have h2: "\<not> g_selectedIsOpen protected_entry" by code_simp
  have h3: "g_password protected_entry = []" by code_simp
  have c: "CHR ''a'' \<noteq> CHR ''q'' \<and> CHR ''a'' \<noteq> CHR ''Q'' \<and> CHR ''a'' \<noteq> CHR ''r''
           \<and> CHR ''a'' \<noteq> CHR ''R''" by simp
  from h1 h2 h3 c password_typing [OF h1 h2, of "CHR ''a''" example_scan]
  show ?thesis by blast
qed

text \<open>
  Claim C7 excludes only the back character. The character \<open>r\<close> is not the back
  character, and typing it while the password of the protected network A is being
  entered does not append it: the program rescans, and the buffer is not the old buffer
  followed by \<open>r\<close>.
\<close>

theorem password_typing_counterexample:
  "g_uiState protected_entry = UI_ENTER_PASSWORD
   \<and> \<not> g_selectedIsOpen protected_entry
   \<and> CHR ''r'' \<noteq> CHR ''q'' \<and> CHR ''r'' \<noteq> CHR ''Q''
   \<and> g_password (handleKeyboard (CharTyped CHR ''r'') example_scan protected_entry)
       \<noteq> g_password protected_entry @ [CHR ''r'']
   \<and> g_uiState (handleKeyboard (CharTyped CHR ''r'') example_scan protected_entry)
       = UI_SELECT_NETWORK"
  by code_simp

section \<open>Open networks\<close>

text \<open>
  Claim C8, amended. In \<open>UI_ENTER_PASSWORD\<close> for an open network, the enter key sets
  the state to \<open>UI_CONNECTING\<close> and calls \<open>WiFi.begin\<close> with the selected name and
  no password, after setting station mode and disconnecting; a typed character other
  than \<open>q\<close>, \<open>Q\<close>, \<open>r\<close> and \<open>R\<close>, and the delete key, leave every global as it
  was.
\<close>

theorem open_network_confirm:
  assumes "g_uiState s = UI_ENTER_PASSWORD" and "g_selectedIsOpen s"
  shows "handleKeyboard KeyConfirm sc s
           = s\<lparr>g_uiState := UI_CONNECTING, g_needRedraw := True,
               wifi_calls := wifi_calls s
                 @ [WiFi_mode_STA, WiFi_disconnect2 False False,
                    WiFi_begin (g_selectedSsid s) None]\<rparr>
       \<and> (c \<noteq> CHR ''q'' \<and> c \<noteq> CHR ''Q'' \<and> c \<noteq> CHR ''r'' \<and> c \<noteq> CHR ''R'' \<longrightarrow>
            handleKeyboard (CharTyped c) sc s = s)
       \<and> handleKeyboard KeyDelete sc s = s"
  using assms
  by (simp add: handleKeyboard_def CharTyped_def KeyDelete_def KeyConfirm_def pressed_def
      startConnection_def Let_def)

theorem open_network_confirm_witness:
  "g_uiState open_entry = UI_ENTER_PASSWORD
   \<and> g_selectedIsOpen open_entry
   \<and> handleKeyboard KeyConfirm example_scan open_entry
       = open_entry\<lparr>g_uiState := UI_CONNECTING, g_needRedraw := True,
                     wifi_calls := wifi_calls open_entry
                       @ [WiFi_mode_STA, WiFi_disconnect2 False False,
                          WiFi_begin (g_selectedSsid open_entry) None]\<rparr>
   \<and> g_selectedSsid open_entry = ''B''
   \<and> handleKeyboard (CharTyped CHR ''x'') example_scan open_entry = open_entry
   \<and> handleKeyboard KeyDelete example_scan open_entry = open_entry"
proof -
  have h1: "g_uiState open_entry = UI_ENTER_PASSWORD" by code_simp
  have h2: "g_selectedIsOpen open_entry" by code_simp
  have e: "g_selectedSsid open_entry = ''B''" by code_simp
  have c: "CHR ''x'' \<noteq> CHR ''q'' \<and> CHR ''x'' \<noteq> CHR ''Q'' \<and> CHR ''x'' \<noteq> CHR ''r''
           \<and> CHR ''x'' \<noteq> CHR ''R''" by simp
  from h1 h2 e c open_network_confirm [OF h1 h2, of example_scan "CHR ''x''"]
  show ?thesis by blast
qed

text \<open>
  Claim C8 lets no typed character have an effect. With the open network B selected,
  typing \<open>q\<close> has one: the state goes back to \<open>UI_SELECT_NETWORK\<close>.
\<close>

theorem open_network_confirm_counterexample:
  "g_uiState open_entry = UI_ENTER_PASSWORD
   \<and> g_selectedIsOpen open_entry
   \<and> g_uiState (handleKeyboard (CharTyped CHR ''q'') example_scan open_entry)
       = UI_SELECT_NETWORK
   \<and> handleKeyboard (CharTyped CHR ''q'') example_scan open_entry \<noteq> open_entry"
proof -
  have a: "g_uiState open_entry = UI_ENTER_PASSWORD" by code_simp
  have b: "g_selectedIsOpen open_entry" by code_simp
  have c: "g_uiState (handleKeyboard (CharTyped CHR ''q'') example_scan open_entry)
             = UI_SELECT_NETWORK" by code_simp
  from a c have "handleKeyboard (CharTyped CHR ''q'') example_scan open_entry \<noteq> open_entry"
    by auto
  with a b c show ?thesis by simp
qed

section \<open>Selection\<close>

text \<open>
  Claim C9. In \<open>UI_SELECT_NETWORK\<close> with a non-empty list and the selection on one of
  its entries, \<open>w\<close> or \<open>W\<close> moves the selection one entry up and from the first
  entry to the last, \<open>s\<close> or \<open>S\<close> moves it one entry down and from the last entry
  to the first; the selection stays between 0 and the count; and pressing the same key
  as many times as there are entries brings the selection back to where it started, the
  state still being \<open>UI_SELECT_NETWORK\<close>.
\<close>

theorem selection_wraps:
  assumes "g_uiState s = UI_SELECT_NETWORK"
    and "0 < g_networkCount s" and "g_networkCount s \<le> MAX_NETWORKS"
    and "0 \<le> g_selectedIndex s" and "g_selectedIndex s < int (g_networkCount s)"
    and "up = CHR ''w'' \<or> up = CHR ''W''" and "down = CHR ''s'' \<or> down = CHR ''S''"
  shows "handleKeyboard (CharTyped up) sc s
           = s\<lparr>g_selectedIndex :=
                 (if g_selectedIndex s = 0 then int (g_networkCount s) - 1
                  else g_selectedIndex s - 1),
               g_needRedraw := True\<rparr>
       \<and> handleKeyboard (CharTyped down) sc s
           = s\<lparr>g_selectedIndex :=
                 (if g_selectedIndex s = int (g_networkCount s) - 1 then 0
                  else g_selectedIndex s + 1),
               g_needRedraw := True\<rparr>
       \<and> 0 \<le> g_selectedIndex (handleKeyboard (CharTyped up) sc s)
       \<and> g_selectedIndex (handleKeyboard (CharTyped up) sc s) < int (g_networkCount s)
       \<and> 0 \<le> g_selectedIndex (handleKeyboard (CharTyped down) sc s)
       \<and> g_selectedIndex (handleKeyboard (CharTyped down) sc s) < int (g_networkCount s)
       \<and> g_selectedIndex ((handleKeyboard (CharTyped up) sc ^^ g_networkCount s) s)
           = g_selectedIndex s
       \<and> g_selectedIndex ((handleKeyboard (CharTyped down) sc ^^ g_networkCount s) s)
           = g_selectedIndex s
       \<and> g_uiState ((handleKeyboard (CharTyped up) sc ^^ g_networkCount s) s)
           = UI_SELECT_NETWORK
       \<and> g_uiState ((handleKeyboard (CharTyped down) sc ^^ g_networkCount s) s)
           = UI_SELECT_NETWORK"
proof -
  have sel: "selecting s" using assms(1-5) by (simp add: selecting_def)
  have u: "handleKeyboard (CharTyped up) sc s
           = s\<lparr>g_selectedIndex := (g_selectedIndex s - 1) mod int (g_networkCount s),
               g_needRedraw := True\<rparr>"
    using sel assms(6) by (rule key_up_step)
  have d: "handleKeyboard (CharTyped down) sc s
           = s\<lparr>g_selectedIndex := (g_selectedIndex s + 1) mod int (g_networkCount s),
               g_needRedraw := True\<rparr>"
    using sel assms(7) by (rule key_down_step)
  have um: "(g_selectedIndex s - 1) mod int (g_networkCount s)
              = (if g_selectedIndex s = 0 then int (g_networkCount s) - 1
                 else g_selectedIndex s - 1)"
    using assms(2-5) by (auto simp: zmod_minus1)
  have dm: "(g_selectedIndex s + 1) mod int (g_networkCount s)
              = (if g_selectedIndex s = int (g_networkCount s) - 1 then 0
                 else g_selectedIndex s + 1)"
    using assms(2-5) by auto
  have ur: "g_selectedIndex ((handleKeyboard (CharTyped up) sc ^^ g_networkCount s) s)
              = g_selectedIndex s"
       "g_uiState ((handleKeyboard (CharTyped up) sc ^^ g_networkCount s) s) = UI_SELECT_NETWORK"
    using key_up_repeat [OF sel assms(6), where k = "g_networkCount s" and sc = sc] assms(4,5)
    by (simp_all add: selecting_def)
  have dr: "g_selectedIndex ((handleKeyboard (CharTyped down) sc ^^ g_networkCount s) s)
              = g_selectedIndex s"
       "g_uiState ((handleKeyboard (CharTyped down) sc ^^ g_networkCount s) s) = UI_SELECT_NETWORK"
    using key_down_repeat [OF sel assms(7), where k = "g_networkCount s" and sc = sc] assms(4,5)
    by (simp_all add: selecting_def)
  have ub: "0 \<le> g_selectedIndex (handleKeyboard (CharTyped up) sc s)"
       "g_selectedIndex (handleKeyboard (CharTyped up) sc s) < int (g_networkCount s)"
    using assms(2) by (simp_all add: u)
  have db: "0 \<le> g_selectedIndex (handleKeyboard (CharTyped down) sc s)"
       "g_selectedIndex (handleKeyboard (CharTyped down) sc s) < int (g_networkCount s)"
    using assms(2) by (simp_all add: d)
  show ?thesis
    using u [unfolded um] d [unfolded dm] ub db ur dr by blast
qed

theorem selection_wraps_witness:
  "g_uiState (setup_main example_scan) = UI_SELECT_NETWORK
   \<and> g_networkCount (setup_main example_scan) = 3
   \<and> g_selectedIndex (setup_main example_scan) = 0
   \<and> g_selectedIndex (handleKeyboard (CharTyped CHR ''w'') example_scan
                         (setup_main example_scan)) = 2
   \<and> g_selectedIndex (handleKeyboard (CharTyped CHR ''s'') example_scan
                         (setup_main example_scan)) = 1
   \<and> g_selectedIndex
        ((handleKeyboard (CharTyped CHR ''w'') example_scan ^^ 3) (setup_main example_scan)) = 0
   \<and> g_selectedIndex
        ((handleKeyboard (CharTyped CHR ''s'') example_scan ^^ 3) (setup_main example_scan)) = 0"
proof -
  let ?s = "setup_main example_scan"
  have h1: "g_uiState ?s = UI_SELECT_NETWORK" by code_simp
  have n: "g_networkCount ?s = 3" by code_simp
  have i: "g_selectedIndex ?s = 0" by code_simp
  have h2: "0 < g_networkCount ?s" and h3: "g_networkCount ?s \<le> MAX_NETWORKS"
    and h4: "0 \<le> g_selectedIndex ?s" and h5: "g_selectedIndex ?s < int (g_networkCount ?s)"
    by (simp_all add: n i MAX_NETWORKS_def)
  have h6: "CHR ''w'' = CHR ''w'' \<or> CHR ''w'' = CHR ''W''"
    and h7: "CHR ''s'' = CHR ''s'' \<or> CHR ''s'' = CHR ''S''" by simp_all
  note t = selection_wraps [OF h1 h2 h3 h4 h5 h6 h7, of example_scan]
  from t have u: "handleKeyboard (CharTyped CHR ''w'') example_scan ?s
      = ?s\<lparr>g_selectedIndex := (if g_selectedIndex ?s = 0 then int (g_networkCount ?s) - 1
                                 else g_selectedIndex ?s - 1), g_needRedraw := True\<rparr>"
    and d: "handleKeyboard (CharTyped CHR ''s'') example_scan ?s
      = ?s\<lparr>g_selectedIndex := (if g_selectedIndex ?s = int (g_networkCount ?s) - 1 then 0
                                 else g_selectedIndex ?s + 1), g_needRedraw := True\<rparr>"
    and ur: "g_selectedIndex ((handleKeyboard (CharTyped CHR ''w'') example_scan
               ^^ g_networkCount ?s) ?s) = g_selectedIndex ?s"
    and dr: "g_selectedIndex ((handleKeyboard (CharTyped CHR ''s'') example_scan
               ^^ g_networkCount ?s) ?s) = g_selectedIndex ?s"
    by blast+
  have u': "g_selectedIndex (handleKeyboard (CharTyped CHR ''w'') example_scan ?s) = 2"
    by (simp add: u n i)
  have d': "g_selectedIndex (handleKeyboard (CharTyped CHR ''s'') example_scan ?s) = 1"
    by (simp add: d n i)
  from h1 n i u' d' ur [unfolded n i] dr [unfolded n i] show ?thesis by blast
qed

section \<open>Characters a password cannot hold\<close>

text \<open>
  Claim C10. In every state, typing \<open>r\<close> or \<open>R\<close> makes \<open>handleKeyboard\<close> rescan
  and nothing else; in \<open>UI_ENTER_PASSWORD\<close>, typing \<open>q\<close> or \<open>Q\<close> goes back to the
  list and clears the buffer. After \<open>setup\<close> and any number of passes of \<open>loop\<close>,
  with any keyboard reports, scans and statuses, the password buffer holds none of
  \<open>r\<close>, \<open>R\<close>, \<open>q\<close>, \<open>Q\<close>, and neither does any password that was handed to
  \<open>WiFi.begin\<close>.
\<close>

theorem reserved_keys_never_in_password:
  "(ch = CHR ''r'' \<or> ch = CHR ''R'' \<longrightarrow>
      handleKeyboard (CharTyped ch) sc s
        = scanNetworks sc (s\<lparr>wifi_calls := wifi_calls s @ [WiFi_disconnect1 True]\<rparr>))
   \<and> (ch = CHR ''q'' \<or> ch = CHR ''Q'' \<longrightarrow> g_uiState s = UI_ENTER_PASSWORD \<longrightarrow>
        handleKeyboard (CharTyped ch) sc s
          = s\<lparr>g_uiState := UI_SELECT_NETWORK, g_password := [], g_needRedraw := True\<rparr>)
   \<and> (let t = fold loop inps (setup_main sc0)
      in (\<forall>c\<in>set (g_password t).
            c \<noteq> CHR ''r'' \<and> c \<noteq> CHR ''R'' \<and> c \<noteq> CHR ''q'' \<and> c \<noteq> CHR ''Q'')
         \<and> (\<forall>name pw. WiFi_begin name (Some pw) \<in> set (wifi_calls t) \<longrightarrow>
              (\<forall>c\<in>set pw.
                 c \<noteq> CHR ''r'' \<and> c \<noteq> CHR ''R'' \<and> c \<noteq> CHR ''q'' \<and> c \<noteq> CHR ''Q'')))"
proof (intro conjI)
  show "ch = CHR ''r'' \<or> ch = CHR ''R'' \<longrightarrow>
      handleKeyboard (CharTyped ch) sc s
        = scanNetworks sc (s\<lparr>wifi_calls := wifi_calls s @ [WiFi_disconnect1 True]\<rparr>)"
    by (auto simp: handleKeyboard_def CharTyped_def pressed_def Let_def)
  show "ch = CHR ''q'' \<or> ch = CHR ''Q'' \<longrightarrow> g_uiState s = UI_ENTER_PASSWORD \<longrightarrow>
        handleKeyboard (CharTyped ch) sc s
          = s\<lparr>g_uiState := UI_SELECT_NETWORK, g_password := [], g_needRedraw := True\<rparr>"
    by (auto simp: handleKeyboard_def CharTyped_def pressed_def Let_def)
  have inv: "password_inv (fold loop inps (setup_main sc0))"
    by (intro password_inv_reachable password_inv_setup)
  have e: "WiFi_begin name (Some pw) \<in> set calls \<Longrightarrow> pw \<in> set (entered_passwords calls)"
    for name pw calls
    by (force simp: entered_passwords_def)
  show "let t = fold loop inps (setup_main sc0)
      in (\<forall>c\<in>set (g_password t).
            c \<noteq> CHR ''r'' \<and> c \<noteq> CHR ''R'' \<and> c \<noteq> CHR ''q'' \<and> c \<noteq> CHR ''Q'')
         \<and> (\<forall>name pw. WiFi_begin name (Some pw) \<in> set (wifi_calls t) \<longrightarrow>
              (\<forall>c\<in>set pw.
                 c \<noteq> CHR ''r'' \<and> c \<noteq> CHR ''R'' \<and> c \<noteq> CHR ''q'' \<and> c \<noteq> CHR ''Q''))"
    unfolding Let_def
  proof (intro conjI allI impI)
    show "\<forall>c\<in>set (g_password (fold loop inps (setup_main sc0))).
            c \<noteq> CHR ''r'' \<and> c \<noteq> CHR ''R'' \<and> c \<noteq> CHR ''q'' \<and> c \<noteq> CHR ''Q''"
      using inv by (auto simp: password_inv_def clean_def list_all_iff reserved_char_def)
  next
    fix name pw
    assume "WiFi_begin name (Some pw) \<in> set (wifi_calls (fold loop inps (setup_main sc0)))"
    then have "pw \<in> set (entered_passwords (wifi_calls (fold loop inps (setup_main sc0))))"
      by (rule e)
    then have "clean pw" using inv by (simp add: password_inv_def list_all_iff)
    then show "\<forall>c\<in>set pw. c \<noteq> CHR ''r'' \<and> c \<noteq> CHR ''R'' \<and> c \<noteq> CHR ''q'' \<and> c \<noteq> CHR ''Q''"
      by (auto simp: clean_def list_all_iff reserved_char_def)
  qed
qed

theorem reserved_keys_never_in_password_witness:
  "handleKeyboard (CharTyped CHR ''r'') example_scan protected_entry
     = scanNetworks example_scan
         (protected_entry\<lparr>wifi_calls := wifi_calls protected_entry @ [WiFi_disconnect1 True]\<rparr>)
   \<and> g_uiState protected_entry = UI_ENTER_PASSWORD
   \<and> handleKeyboard (CharTyped CHR ''Q'') example_scan protected_entry
       = protected_entry\<lparr>g_uiState := UI_SELECT_NETWORK, g_password := [],
                          g_needRedraw := True\<rparr>
   \<and> WiFi_begin ''A'' (Some ''ab'')
       \<in> set (wifi_calls (fold loop example_session (setup_main example_scan)))
   \<and> list_all (\<lambda>c. c \<noteq> CHR ''r'' \<and> c \<noteq> CHR ''R'' \<and> c \<noteq> CHR ''q'' \<and> c \<noteq> CHR ''Q'') ''ab''"
proof -
  have e: "g_uiState protected_entry = UI_ENTER_PASSWORD" by code_simp
  have b: "WiFi_begin ''A'' (Some ''ab'')
       \<in> set (wifi_calls (fold loop example_session (setup_main example_scan)))"
    by code_simp
  from reserved_keys_never_in_password [of "CHR ''r''" example_scan protected_entry]
  have 1: "handleKeyboard (CharTyped CHR ''r'') example_scan protected_entry
     = scanNetworks example_scan
         (protected_entry\<lparr>wifi_calls := wifi_calls protected_entry @ [WiFi_disconnect1 True]\<rparr>)"
    by blast
  from e reserved_keys_never_in_password [of "CHR ''Q''" example_scan protected_entry]
  have 2: "handleKeyboard (CharTyped CHR ''Q'') example_scan protected_entry
       = protected_entry\<lparr>g_uiState := UI_SELECT_NETWORK, g_password := [],
                          g_needRedraw := True\<rparr>"
    by blast
  note inv = reserved_keys_never_in_password
      [of "CHR ''r''" example_scan protected_entry example_session example_scan,
       THEN conjunct2, THEN conjunct2, unfolded Let_def, THEN conjunct2]
  from inv have "WiFi_begin ''A'' (Some ''ab'')
          \<in> set (wifi_calls (fold loop example_session (setup_main example_scan)))
        \<longrightarrow> (\<forall>c\<in>set ''ab''.
               c \<noteq> CHR ''r'' \<and> c \<noteq> CHR ''R'' \<and> c \<noteq> CHR ''q'' \<and> c \<noteq> CHR ''Q'')"
    by (elim allE)
  with b
  have 3: "\<forall>c\<in>set ''ab''. c \<noteq> CHR ''r'' \<and> c \<noteq> CHR ''R'' \<and> c \<noteq> CHR ''q'' \<and> c \<noteq> CHR ''Q''"
    by (rule rev_mp)
  then have 4: "list_all (\<lambda>c. c \<noteq> CHR ''r'' \<and> c \<noteq> CHR ''R'' \<and> c \<noteq> CHR ''q'' \<and> c \<noteq> CHR ''Q'') ''ab''"
    unfolding list_all_iff .
  from 1 e 2 b 4 show ?thesis by blast
qed

end
